theory Spec2Isabelle
  imports Complex_Main
begin

section \<open>JavaScript values\<close>

text \<open>
  A JavaScript number is modelled as \<open>NaN\<close> or a finite value, the finite values being
  embedded in the rationals (every finite double is a rational, and the comparisons of
  doubles are the comparisons of their values; \<open>-0\<close> and \<open>+0\<close> compare equal and are one
  value here). The two infinities are not modelled, so a version \<open>Infinity\<close>, which
  \<open>add\<close> would take, is outside of what is stated here. Where the program would round to
  a double or print a number in exponent notation, the result is taken from the host
  environment (see \<open>env\<close> below) instead of being computed.
\<close>

datatype number = NaN | Fin rat

text \<open>The operators \<^verbatim>\<open><\<close>, \<^verbatim>\<open><=\<close>, \<^verbatim>\<open>>\<close> and \<^verbatim>\<open>===\<close> on numbers: every
  comparison with \<open>NaN\<close> is false.\<close>

fun num_lt :: "number \<Rightarrow> number \<Rightarrow> bool" where
  "num_lt (Fin a) (Fin b) = (a < b)"
| "num_lt _ _ = False"

fun num_le :: "number \<Rightarrow> number \<Rightarrow> bool" where
  "num_le (Fin a) (Fin b) = (a \<le> b)"
| "num_le _ _ = False"

definition num_gt :: "number \<Rightarrow> number \<Rightarrow> bool" where
  "num_gt a b = num_lt b a"

fun strict_eq :: "number \<Rightarrow> number \<Rightarrow> bool" where
  "strict_eq (Fin a) (Fin b) = (a = b)"
| "strict_eq _ _ = False"

text \<open>A function value is the built-in empty function of the sentinel migration, or a
  function supplied by the user, identified by a number; what a user function does when
  called is given by the environment.\<close>

datatype fn = Noop | UserFn nat

datatype jsval =
  JUndefined | JNull | JBool bool | JNum number | JStr string | JFun fn

text \<open>\<^verbatim>\<open>typeof v === 'function'\<close> and the truthiness of a value.\<close>

fun is_function :: "jsval \<Rightarrow> bool" where
  "is_function (JFun f) = True"
| "is_function _ = False"

fun truthy :: "jsval \<Rightarrow> bool" where
  "truthy JUndefined = False"
| "truthy JNull = False"
| "truthy (JBool b) = b"
| "truthy (JNum NaN) = False"
| "truthy (JNum (Fin q)) = (q \<noteq> 0)"
| "truthy (JStr s) = (s \<noteq> [])"
| "truthy (JFun f) = True"

section \<open>Migrations, the control record and the engine state\<close>

text \<open>
  A migration object has the properties \<open>version\<close>, \<open>name\<close>, \<open>up\<close> and \<open>down\<close>, and is
  frozen or not. The object handed to \<open>add\<close> may hold any value under \<open>version\<close>
  (\<open>jsval step\<close>); an object of the list \<open>_list\<close> has passed the \<^verbatim>\<open>typeof\<close> check
  of \<open>add\<close> (or is the sentinel), so its version is a number (\<open>number step\<close>).
\<close>

record 'v step =
  version :: 'v
  name :: jsval
  up :: jsval
  down :: jsval
  frozen :: bool

type_synonym migration = "number step"

definition DefaultMigration :: migration where
  "DefaultMigration =
     \<lparr>version = Fin 0, name = JUndefined, up = JFun Noop, down = JUndefined, frozen = False\<rparr>"

text \<open>The control document of the collection (the document with \<open>_id: 'control'\<close>);
  \<open>lockedAt\<close> is a time stamp read from the clock of the state.\<close>

record control =
  c_version :: number
  locked :: bool
  lockedAt :: nat

datatype direction = Up | Down

datatype error =
    InvalidCommand jsval
  | InvalidStep string
  | VersionNotFound number
  | DirectionUnsupported direction number
  | TypeError
  | UserError string

text \<open>Log messages are kept by their parts rather than as concatenated text.\<close>

datatype level = LInfo | LError

datatype logmsg =
    AlreadyAtVersion number
  | ControlIsLocked
  | Rerunning number
  | FinishedMigrating
  | MigrationFailed
  | MigratingFromTo number number
  | Running direction number "jsval option"

text \<open>
  The trace records, in order, what the engine does to the outside: reads and writes of the
  collection, lock attempts with their result, calls of step functions with the object
  the function belongs to and the list of arguments passed, log messages, and the exit
  of the process.
\<close>

datatype event =
    EvFind
  | EvSet number bool
  | EvLock bool
  | EvUnlock
  | EvRemove
  | EvCall direction migration "migration list"
  | EvLog level logmsg
  | EvExit

text \<open>
  The state the engine works on: the list \<open>_list\<close> of the \<open>Migrations\<close> object, the
  control document of the collection \<open>_collection\<close> (none before the first write), the data
  the step functions work on, the clock that \<open>new Date()\<close> reads, whether the logger made
  at startup logs at all (\<open>options.log\<close>), the option \<open>logIfLatest\<close>, and the trace so far.
\<close>

record 'w state =
  m_list :: "migration list"
  collection :: "control option"
  world :: 'w
  clock :: nat
  log_enabled :: bool
  logIfLatest :: bool
  trace :: "event list"

text \<open>
  The host environment: the behaviour of each user function (called with a list of
  arguments on the data \<open>'w\<close> the migrations work on, it returns or throws, and leaves
  the data changed either way), and the two conversions of numbers that are not computed
  here: \<open>exponent_prefix q\<close> is what \<^verbatim>\<open>parseInt\<close> reads from the text of a number printed
  in exponent notation, \<open>round_double i\<close> is the double nearest to an integer beyond
  \<open>2^53\<close>. Step functions are taken to return or throw (one that never settles is not
  modelled) and not to touch the control document or the list.
\<close>

record 'w env =
  body :: "nat \<Rightarrow> migration list \<Rightarrow> 'w \<Rightarrow> string option \<times> 'w"
  exponent_prefix :: "rat \<Rightarrow> number"
  round_double :: "int \<Rightarrow> number"

text \<open>Calling a function value: what a user function throws is the error \<open>UserError\<close>
  with the thrown value, passed on as it is.\<close>

fun call :: "'w env \<Rightarrow> fn \<Rightarrow> migration list \<Rightarrow> 'w \<Rightarrow> error option \<times> 'w" where
  "call E Noop args w = (None, w)"
| "call E (UserFn k) args w =
     (case body E k args w of (None, w') \<Rightarrow> (None, w') | (Some x, w') \<Rightarrow> (Some (UserError x), w'))"

text \<open>The state when the module is loaded and the collection is still empty: the list
  holds the sentinel, logging and \<open>logIfLatest\<close> are on.\<close>

definition initial :: "'w \<Rightarrow> nat \<Rightarrow> 'w state" where
  "initial w t =
     \<lparr>m_list = [DefaultMigration], collection = None, world = w, clock = t,
      log_enabled = True, logIfLatest = True, trace = []\<rparr>"

definition emit :: "event \<Rightarrow> 'w state \<Rightarrow> 'w state" where
  "emit ev s = s\<lparr>trace := trace s @ [ev]\<rparr>"

text \<open>\<open>log.info\<close> and \<open>log.error\<close>: the logger made at startup is the empty function when
  logging is disabled.\<close>

definition log :: "level \<Rightarrow> logmsg \<Rightarrow> 'w state \<Rightarrow> 'w state" where
  "log lv msg s = (if log_enabled s then emit (EvLog lv msg) s else s)"

section \<open>The registry: \<open>add\<close>\<close>

text \<open>The comparator handed to \<open>sort\<close>.\<close>

definition compare_version :: "migration \<Rightarrow> migration \<Rightarrow> int" where
  "compare_version a b =
     (if num_gt (version a) (version b) then 1
      else if num_gt (version b) (version a) then -1 else 0)"

text \<open>
  \<open>Array.prototype.sort\<close> is a stable sort. For a comparator that is consistent (as this
  one is on versions other than \<open>NaN\<close>) its result is determined: the elements in
  ascending order, equal ones in their former order. It is modelled as the stable insertion
  sort. The comparator returns 0 whenever one of the versions is \<open>NaN\<close>, so on a list
  with a \<open>NaN\<close> version and two different other versions it is inconsistent; the language
  then leaves the order to the engine, and the insertion sort need not give the order of
  the engine there. The one list of this kind evaluated below is left by the insertion
  sort as the \<open>push\<close> made it, and that it is not in ascending order holds of every
  arrangement of its elements (lemma \<open>nan_never_ascending\<close>).
\<close>

fun insert_sorted :: "('a \<Rightarrow> 'a \<Rightarrow> int) \<Rightarrow> 'a \<Rightarrow> 'a list \<Rightarrow> 'a list" where
  "insert_sorted cmp x [] = [x]"
| "insert_sorted cmp x (y # ys) =
     (if cmp x y \<le> 0 then x # y # ys else y # insert_sorted cmp x ys)"

definition sort_by :: "('a \<Rightarrow> 'a \<Rightarrow> int) \<Rightarrow> 'a list \<Rightarrow> 'a list" where
  "sort_by cmp xs = foldr (insert_sorted cmp) xs []"

text \<open>\<open>Object.freeze\<close> on the object handed to \<open>add\<close>, whose version is the number \<open>v\<close>.\<close>

definition freeze :: "jsval step \<Rightarrow> number \<Rightarrow> migration" where
  "freeze m v =
     \<lparr>version = v, name = name m, up = up m, down = down m, frozen = True\<rparr>"

definition add :: "jsval step \<Rightarrow> 'w state \<Rightarrow> (error + unit) \<times> 'w state" where
  "add migration s =
     (if \<not> is_function (up migration)
      then (Inl (InvalidStep ''Migration must supply an up function.''), s)
      else case version migration of
        JNum v \<Rightarrow>
          if num_le v (Fin 0)
          then (Inl (InvalidStep ''Migration version must be greater than 0''), s)
          else (Inr (),
                s\<lparr>m_list := sort_by compare_version (m_list s @ [freeze migration v])\<rparr>)
      | _ \<Rightarrow> (Inl (InvalidStep ''Migration must supply a version number.''), s))"

section \<open>The control store\<close>

text \<open>
  \<open>_setControl\<close>: both \<^verbatim>\<open>check\<close>s pass, the arguments being a number and a boolean by
  their types; the upsert sets all three fields and so replaces the document.
\<close>

definition setControl :: "number \<Rightarrow> bool \<Rightarrow> 'w state \<Rightarrow> 'w state" where
  "setControl v l s =
     emit (EvSet v l)
       (s\<lparr>collection := Some \<lparr>c_version = v, locked = l, lockedAt = clock s\<rparr>\<rparr>)"

text \<open>\<open>_getControl\<close>, returning the \<open>version\<close> of the control object (the only field
  its callers read): the stored document, or the default one written on a miss.\<close>

definition getControl :: "'w state \<Rightarrow> number \<times> 'w state" where
  "getControl s =
     (case collection s of
        Some c \<Rightarrow> (c_version c, emit EvFind s)
      | None \<Rightarrow> (Fin 0, setControl (Fin 0) False (emit EvFind s)))"

definition getVersion :: "'w state \<Rightarrow> number \<times> 'w state" where
  "getVersion s = getControl s"

text \<open>\<open>lock\<close>: one conditional update; it matches the control document only when its
  \<open>locked\<close> is false, and the result tells whether one document was updated.\<close>

definition lock :: "'w state \<Rightarrow> bool \<times> 'w state" where
  "lock s =
     (case collection s of
        Some c \<Rightarrow>
          if locked c then (False, emit (EvLock False) s)
          else (True, emit (EvLock True)
                 (s\<lparr>collection := Some (c\<lparr>locked := True, lockedAt := clock s\<rparr>)\<rparr>))
      | None \<Rightarrow> (False, emit (EvLock False) s))"

text \<open>The inner \<open>unlock\<close> and \<open>updateVersion\<close> of \<open>_migrateTo\<close>, with the current
  version they close over as an argument.\<close>

definition unlock_inner :: "number \<Rightarrow> 'w state \<Rightarrow> 'w state" where
  "unlock_inner currentVersion s = setControl currentVersion False s"

definition updateVersion :: "number \<Rightarrow> 'w state \<Rightarrow> 'w state" where
  "updateVersion currentVersion s = setControl currentVersion True s"

text \<open>The public \<open>unlock\<close>: an update without upsert that sets \<open>locked\<close> only; it
  returns the number of documents affected.\<close>

definition unlock :: "'w state \<Rightarrow> nat \<times> 'w state" where
  "unlock s =
     (case collection s of
        Some c \<Rightarrow> (1, emit EvUnlock (s\<lparr>collection := Some (c\<lparr>locked := False\<rparr>)\<rparr>))
      | None \<Rightarrow> (0, emit EvUnlock s))"

definition reset :: "'w state \<Rightarrow> 'w state" where
  "reset s =
     emit EvRemove
       (s\<lparr>m_list := [\<lparr>version = Fin 0, name = JUndefined, up = JFun Noop,
                        down = JUndefined, frozen = False\<rparr>],
          collection := None\<rparr>)"

section \<open>The engine\<close>

fun findIndexFrom :: "nat \<Rightarrow> migration list \<Rightarrow> number \<Rightarrow> error + nat" where
  "findIndexFrom i [] v = Inl (VersionNotFound v)"
| "findIndexFrom i (m # ms) v =
     (if strict_eq (version m) v then Inr i else findIndexFrom (Suc i) ms v)"

definition findIndexByVersion :: "'w state \<Rightarrow> number \<Rightarrow> error + nat" where
  "findIndexByVersion s v = findIndexFrom 0 (m_list s) v"

text \<open>\<open>migration[direction]\<close>, and the part of the log message made by \<open>maybeName\<close>.\<close>

definition field :: "direction \<Rightarrow> migration \<Rightarrow> jsval" where
  "field direction migration =
     (case direction of Up \<Rightarrow> up migration | Down \<Rightarrow> down migration)"

definition maybeName :: "migration \<Rightarrow> jsval option" where
  "maybeName migration = (if truthy (name migration) then Some (name migration) else None)"

text \<open>
  \<open>migrate\<close> runs one step. An index outside the list reads \<open>undefined\<close>, and the
  property access on it throws a \<open>TypeError\<close>. A step without the function of the
  direction unlocks and throws. Otherwise the function is called with the migration object
  as its one argument.
\<close>

definition migrate ::
  "'w env \<Rightarrow> direction \<Rightarrow> nat \<Rightarrow> number \<Rightarrow> 'w state \<Rightarrow> (error + unit) \<times> 'w state" where
  "migrate E direction idx currentVersion s =
     (if idx < length (m_list s) then
        let migration = m_list s ! idx in
        case field direction migration of
          JFun f \<Rightarrow>
            let s1 = log LInfo
                       (Running direction (version migration) (maybeName migration)) s;
                (r, w) = call E f [migration] (world s1);
                s2 = (emit (EvCall direction migration [migration]) s1)\<lparr>world := w\<rparr>
            in (case r of None \<Rightarrow> (Inr (), s2) | Some e \<Rightarrow> (Inl e, s2))
        | _ \<Rightarrow>
            (Inl (DirectionUnsupported direction (version migration)),
             unlock_inner currentVersion s)
      else (Inl TypeError, s))"

text \<open>The two loops of \<open>_migrateTo\<close>. Each returns the current version with the state,
  since the cleanup reads it after a throw as well.\<close>

function up_loop ::
  "'w env \<Rightarrow> nat \<Rightarrow> nat \<Rightarrow> number \<Rightarrow> 'w state \<Rightarrow> (error + unit) \<times> number \<times> 'w state" where
  "up_loop E i endIdx currentVersion s =
     (if i < endIdx then
        (case migrate E Up (i + 1) currentVersion s of
           (Inl e, s1) \<Rightarrow> (Inl e, currentVersion, s1)
         | (Inr u, s1) \<Rightarrow>
             let cv = version (m_list s1 ! (i + 1))
             in up_loop E (i + 1) endIdx cv (updateVersion cv s1))
      else (Inr (), currentVersion, s))"
  by pat_completeness auto
termination
  by (relation "measure (\<lambda>(E, i, endIdx, cv, s). endIdx - i)") auto

function down_loop ::
  "'w env \<Rightarrow> nat \<Rightarrow> nat \<Rightarrow> number \<Rightarrow> 'w state \<Rightarrow> (error + unit) \<times> number \<times> 'w state" where
  "down_loop E i endIdx currentVersion s =
     (if i > endIdx then
        (case migrate E Down i currentVersion s of
           (Inl e, s1) \<Rightarrow> (Inl e, currentVersion, s1)
         | (Inr u, s1) \<Rightarrow>
             let cv = version (m_list s1 ! (i - 1))
             in down_loop E (i - 1) endIdx cv (updateVersion cv s1))
      else (Inr (), currentVersion, s))"
  by pat_completeness auto
termination
  by (relation "measure (\<lambda>(E, i, endIdx, cv, s). i)") auto

declare up_loop.simps [simp del] down_loop.simps [simp del]

text \<open>
  \<open>_migrateTo\<close>. The two lookups of the sequential path stand before the \<^verbatim>\<open>try\<close>
  block, so a throw there leaves without the cleanup; the rerun path and the loops are
  inside \<^verbatim>\<open>try\<close> blocks whose \<^verbatim>\<open>finally\<close> unlocks with the current version.
\<close>

definition migrateTo_inner ::
  "'w env \<Rightarrow> number \<Rightarrow> bool \<Rightarrow> 'w state \<Rightarrow> (error + unit) \<times> 'w state" where
  "migrateTo_inner E target rerun s =
     (let (currentVersion, s1) = getControl s in
      if \<not> rerun \<and> strict_eq currentVersion target
      then (Inr (), if logIfLatest s1 then log LInfo (AlreadyAtVersion target) s1 else s1)
      else
        let (isLocked, s2) = lock s1 in
        if \<not> isLocked then (Inr (), log LInfo ControlIsLocked s2)
        else if rerun then
          (let s3 = log LInfo (Rerunning target) s2;
               (r, s4) =
                 (case findIndexByVersion s3 target of
                    Inl e \<Rightarrow> (Inl e, s3)
                  | Inr idx \<Rightarrow>
                      (case migrate E Up idx currentVersion s3 of
                         (Inl e, s') \<Rightarrow> (Inl e, s')
                       | (Inr u, s') \<Rightarrow> (Inr (), log LInfo FinishedMigrating s')));
               s5 = (case r of Inl e \<Rightarrow> log LError MigrationFailed s4 | Inr u \<Rightarrow> s4)
           in (r, unlock_inner currentVersion s5))
        else
          (case findIndexByVersion s2 currentVersion of
             Inl e \<Rightarrow> (Inl e, s2)
           | Inr startIdx \<Rightarrow>
               (case findIndexByVersion s2 target of
                  Inl e \<Rightarrow> (Inl e, s2)
                | Inr endIdx \<Rightarrow>
                    let s3 = log LInfo
                               (MigratingFromTo (version (m_list s2 ! startIdx))
                                  (version (m_list s2 ! endIdx))) s2;
                        (r, cv, s4) =
                          (if num_lt currentVersion target
                           then up_loop E startIdx endIdx currentVersion s3
                           else down_loop E startIdx endIdx currentVersion s3);
                        s5 = (case r of
                                Inl e \<Rightarrow> log LError MigrationFailed s4
                              | Inr u \<Rightarrow> log LInfo FinishedMigrating s4)
                    in (r, unlock_inner cv s5))))"

section \<open>Commands: \<open>migrateTo\<close>\<close>

text \<open>\<open>String.prototype.split(',')\<close>: the pieces between the commas, at least one.\<close>

fun split_comma :: "string \<Rightarrow> string list" where
  "split_comma [] = [[]]"
| "split_comma (c # cs) =
     (if c = CHR '','' then [] # split_comma cs
      else (case split_comma cs of [] \<Rightarrow> [[c]] | x # xs \<Rightarrow> (c # x) # xs))"

text \<open>Reading an index of the array of pieces: \<open>undefined\<close> beyond its end.\<close>

definition piece :: "string list \<Rightarrow> nat \<Rightarrow> jsval" where
  "piece xs i = (if i < length xs then JStr (xs ! i) else JUndefined)"

text \<open>
  \<open>parseInt\<close> with no radix, on a string of code units below 256: leading white space is
  dropped, then a sign, then \<open>0x\<close> or \<open>0X\<close> (which makes the radix 16); the longest
  run of digits of the radix is read, and none gives \<open>NaN\<close>. An integer up to \<open>2^53\<close> is
  a double; a larger one is rounded by the host.
\<close>

definition is_white :: "char \<Rightarrow> bool" where
  "is_white c = ((of_char c :: nat) \<in> {9, 10, 11, 12, 13, 32, 160})"

definition digit_val :: "char \<Rightarrow> nat" where
  "digit_val c =
     (let n = (of_char c :: nat) in
      if 48 \<le> n \<and> n \<le> 57 then n - 48
      else if 97 \<le> n \<and> n \<le> 122 then n - 87
      else if 65 \<le> n \<and> n \<le> 90 then n - 55
      else 36)"

definition is_digit :: "nat \<Rightarrow> char \<Rightarrow> bool" where
  "is_digit R c = (digit_val c < R)"

definition digits_value :: "nat \<Rightarrow> string \<Rightarrow> nat" where
  "digits_value R Z = foldl (\<lambda>a c. a * R + digit_val c) 0 Z"

definition parseInt_str :: "'w env \<Rightarrow> string \<Rightarrow> number" where
  "parseInt_str E inputString =
     (let S = dropWhile is_white inputString;
          sign = (if S \<noteq> [] \<and> hd S = CHR ''-'' then - 1 else (1::int));
          S1 = (if S \<noteq> [] \<and> (hd S = CHR ''+'' \<or> hd S = CHR ''-'') then tl S else S);
          (R, S2) = (if take 2 S1 = ''0x'' \<or> take 2 S1 = ''0X''
                     then (16, drop 2 S1) else (10, S1));
          Z = takeWhile (is_digit R) S2
      in if Z = [] then NaN
         else let mathInt = int (digits_value R Z)
              in if mathInt \<le> 2 ^ 53 then Fin (of_int (sign * mathInt))
                 else round_double E (sign * mathInt))"

text \<open>
  \<open>parseInt\<close> of a number reads the number's text. A double is printed by the shortest
  digits that read back as the same double, in decimal notation when these digits stand
  for a value from \<open>10^-6\<close> up to \<open>10^21\<close>, where \<open>parseInt\<close> reads the integer part.
  The least double printed so is the double nearest to \<open>10^-6\<close>, which is
  \<open>4722366482869645 / 2^72\<close> and lies just below \<open>10^-6\<close>; \<open>10^21\<close> is a double itself.
  Outside that range the text is in exponent notation and the host gives the result.
\<close>

definition parseInt_num :: "'w env \<Rightarrow> number \<Rightarrow> number" where
  "parseInt_num E n =
     (case n of
        NaN \<Rightarrow> NaN
      | Fin q \<Rightarrow>
          if q = 0 then Fin 0
          else if 4722366482869645 / 2 ^ 72 \<le> \<bar>q\<bar> \<and> \<bar>q\<bar> < 10 ^ 21
          then Fin (of_int (if 0 \<le> q then \<lfloor>q\<rfloor> else \<lceil>q\<rceil>))
          else exponent_prefix E q)"

text \<open>The text of \<open>undefined\<close>, \<open>null\<close>, a boolean or a function starts with no digit.\<close>

definition parseInt :: "'w env \<Rightarrow> jsval \<Rightarrow> number" where
  "parseInt E v =
     (case v of JNum n \<Rightarrow> parseInt_num E n | JStr str \<Rightarrow> parseInt_str E str | _ \<Rightarrow> NaN)"

text \<open>
  \<open>migrateTo\<close>. A command that is neither a number nor a string has no \<open>split\<close>
  method, a \<open>TypeError\<close>. \<open>process.exit(0)\<close> is the event \<open>EvExit\<close>.
\<close>

definition migrateTo :: "'w env \<Rightarrow> jsval \<Rightarrow> 'w state \<Rightarrow> (error + unit) \<times> 'w state" where
  "migrateTo E command s =
     (if command = JUndefined \<or> command = JStr [] \<or> length (m_list s) = 0
      then (Inl (InvalidCommand command), s)
      else
        case (case command of
                JNum n \<Rightarrow> Inr (JNum n, JUndefined)
              | JStr c \<Rightarrow> Inr (piece (split_comma c) 0, piece (split_comma c) 1)
              | _ \<Rightarrow> Inl TypeError) of
          Inl e \<Rightarrow> (Inl e, s)
        | Inr (ver, subcommand) \<Rightarrow>
            let (r, s1) =
                  (if ver = JStr ''latest''
                   then migrateTo_inner E (version (m_list s ! (length (m_list s) - 1))) False s
                   else migrateTo_inner E (parseInt E ver) (subcommand = JStr ''rerun'') s)
            in (case r of
                  Inl e \<Rightarrow> (Inl e, s1)
                | Inr u \<Rightarrow> (Inr (), if subcommand = JStr ''exit'' then emit EvExit s1 else s1)))"

section \<open>Notions used in the statements\<close>

text \<open>A sequence of \<open>add\<close> calls, one after the other; it stops at the first one that
  throws.\<close>

fun add_all :: "jsval step list \<Rightarrow> 'w state \<Rightarrow> (error + unit) \<times> 'w state" where
  "add_all [] s = (Inr (), s)"
| "add_all (m # ms) s =
     (case add m s of (Inl e, s') \<Rightarrow> (Inl e, s') | (Inr u, s') \<Rightarrow> add_all ms s')"

text \<open>The events a call has added to the trace, log messages left out.\<close>

fun is_log :: "event \<Rightarrow> bool" where
  "is_log (EvLog lv msg) = True"
| "is_log ev = False"

definition effects :: "'w state \<Rightarrow> 'w state \<Rightarrow> event list" where
  "effects s s' = filter (\<lambda>ev. \<not> is_log ev) (drop (length (trace s)) (trace s'))"

text \<open>An environment in which every user function returns at once and changes nothing.\<close>

definition idle_env :: "unit env" where
  "idle_env =
     \<lparr>body = (\<lambda>k args w. (None, w)), exponent_prefix = (\<lambda>q. NaN), round_double = (\<lambda>i. NaN)\<rparr>"

text \<open>The decimal text of a natural number, as a command gives a version.\<close>

definition digit_char :: "nat \<Rightarrow> char" where
  "digit_char d = char_of (48 + d)"

fun decimal :: "nat \<Rightarrow> string" where
  "decimal n = (if n < 10 then [digit_char n] else decimal (n div 10) @ [digit_char (n mod 10)])"

declare decimal.simps [simp del]

definition finite_version :: "migration \<Rightarrow> bool" where
  "finite_version m = (version m \<noteq> NaN)"

text \<open>The order of two migrations by \<^verbatim>\<open><=\<close> on their versions.\<close>

definition version_le :: "migration \<Rightarrow> migration \<Rightarrow> bool" where
  "version_le a b = num_le (version a) (version b)"

text \<open>A sample registry for the instances below: the steps of versions 1, 2 and 3, added
  to the initial state in the order 2, 3, 1. Step \<open>n\<close> has the user function \<open>n\<close> under
  \<open>up\<close> and the user function \<open>10 + n\<close> under \<open>down\<close>.\<close>

definition sample_step :: "nat \<Rightarrow> jsval step" where
  "sample_step n =
     \<lparr>version = JNum (Fin (of_nat n)), name = JUndefined, up = JFun (UserFn n),
      down = JFun (UserFn (10 + n)), frozen = False\<rparr>"

definition sample :: "unit state" where
  "sample = snd (add_all [sample_step 2, sample_step 3, sample_step 1] (initial () 0))"

text \<open>Two more steps with a function under \<open>up\<close>: one of the version \<open>NaN\<close>, one of
  the version \<open>3/2\<close>, which JavaScript prints as \<open>1.5\<close>.\<close>

definition nan_step :: "jsval step" where
  "nan_step =
     \<lparr>version = JNum NaN, name = JUndefined, up = JFun (UserFn 4), down = JUndefined,
      frozen = False\<rparr>"


text \<open>The sample registry with a control document stored.\<close>

definition sample_at :: "rat \<Rightarrow> bool \<Rightarrow> unit state" where
  "sample_at v l = sample\<lparr>collection := Some \<lparr>c_version = Fin v, locked = l, lockedAt = 0\<rparr>\<rparr>"

text \<open>An environment in which the user function 2 throws and every other one returns.\<close>

definition failing_env :: "unit env" where
  "failing_env =
     \<lparr>body = (\<lambda>k args w. if k = 2 then (Some ''boom'', w) else (None, w)),
      exponent_prefix = (\<lambda>q. NaN), round_double = (\<lambda>i. NaN)\<rparr>"

text \<open>\<open>extends I s s'\<close>: the state \<open>s'\<close> has the list of \<open>s\<close>, its trace is the trace of
  \<open>s\<close> with events added, and every call among the added events is a call on a migration
  of the list at an index in \<open>I\<close>, with this migration as the one argument.\<close>

definition extends :: "nat set \<Rightarrow> 'w state \<Rightarrow> 'w state \<Rightarrow> bool" where
  "extends I s s' =
     (m_list s' = m_list s \<and>
      (\<exists>evs. trace s' = trace s @ evs \<and>
         (\<forall>d m args. EvCall d m args \<in> set evs \<longrightarrow>
            args = [m] \<and> (\<exists>i\<in>I. i < length (m_list s) \<and> m = m_list s ! i))))"

section \<open>Concurrent invocations\<close>

text \<open>
  Two invocations of \<open>_migrateTo\<close> share the collection and the data, and have the same
  list (they run in one process, or in two with the same migrations added). An invocation
  gives up control at
  each \<^verbatim>\<open>await\<close> and nowhere else, so a run of several invocations is an interleaving
  of the pieces of code between the awaited operations; each operation on the collection
  (\<open>findOneAsync\<close>, \<open>updateAsync\<close>) is atomic, and a call of a step function is taken as one
  piece as well. The program points are the awaited operations of \<open>_migrateTo\<close>:

  \<^item> \<open>PStart\<close>: the \<open>findOneAsync\<close> of \<open>_getControl\<close>;
  \<^item> \<open>PCreate\<close>: the \<open>_setControl\<close> of \<open>_getControl\<close>, after a miss;
  \<^item> \<open>PLock cv\<close>: the update of \<open>lock\<close>, the version read being \<open>cv\<close>;
  \<^item> \<open>PCall d idx f ctx cv\<close>: the call \<open>migration[direction](migration)\<close> in \<open>migrate\<close>, of
    the function \<open>f\<close> of the migration at index \<open>idx\<close>, from the rerun path or from the loop
    at the loop variable \<open>i\<close> with the bound \<open>endIdx\<close>;
  \<^item> \<open>PMissing e cv\<close>: the \<open>unlock\<close> inside \<open>migrate\<close>, before it throws \<open>e\<close>;
  \<^item> \<open>PCheckpoint d i endIdx cv\<close>: the \<open>updateVersion\<close> of the loop;
  \<^item> \<open>PUnlock r cv\<close>: the \<open>unlock\<close> of the \<^verbatim>\<open>finally\<close> block, the outcome being \<open>r\<close>;
  \<^item> \<open>PDone r\<close>: the invocation has returned (\<open>Inr\<close>) or thrown (\<open>Inl\<close>).
\<close>

datatype ctx = InRerun | InLoop nat nat

datatype pc =
    PStart
  | PCreate
  | PLock number
  | PCall direction nat fn ctx number
  | PMissing error number
  | PCheckpoint direction nat nat number
  | PUnlock "error + unit" number
  | PDone "error + unit"

text \<open>After the control object is there: the fast path, or on to the lock.\<close>

definition after_control :: "number \<Rightarrow> bool \<Rightarrow> number \<Rightarrow> 'w state \<Rightarrow> pc \<times> 'w state" where
  "after_control target rerun currentVersion s =
     (if \<not> rerun \<and> strict_eq currentVersion target
      then (PDone (Inr ()),
            if logIfLatest s then log LInfo (AlreadyAtVersion target) s else s)
      else (PLock currentVersion, s))"

text \<open>The code of \<open>migrate\<close> up to its first awaited operation.\<close>

definition enter_migrate ::
  "direction \<Rightarrow> nat \<Rightarrow> ctx \<Rightarrow> number \<Rightarrow> 'w state \<Rightarrow> pc \<times> 'w state" where
  "enter_migrate direction idx c currentVersion s =
     (if idx < length (m_list s) then
        (case field direction (m_list s ! idx) of
           JFun f \<Rightarrow> (PCall direction idx f c currentVersion, s)
         | _ \<Rightarrow> (PMissing (DirectionUnsupported direction (version (m_list s ! idx)))
                   currentVersion, s))
      else (PUnlock (Inl TypeError) currentVersion, log LError MigrationFailed s))"

text \<open>The test of the loop, and what follows it.\<close>

definition loop_head ::
  "direction \<Rightarrow> nat \<Rightarrow> nat \<Rightarrow> number \<Rightarrow> 'w state \<Rightarrow> pc \<times> 'w state" where
  "loop_head direction i endIdx currentVersion s =
     (case direction of
        Up \<Rightarrow>
          if i < endIdx then enter_migrate Up (i + 1) (InLoop i endIdx) currentVersion s
          else (PUnlock (Inr ()) currentVersion, log LInfo FinishedMigrating s)
      | Down \<Rightarrow>
          if i > endIdx then enter_migrate Down i (InLoop i endIdx) currentVersion s
          else (PUnlock (Inr ()) currentVersion, log LInfo FinishedMigrating s))"

text \<open>One piece of an invocation of \<open>_migrateTo(target, rerun)\<close>: the awaited operation at
  the program point, and the code up to the next one. Run one after the other with nothing
  in between, the pieces do what \<open>migrateTo_inner\<close> does (lemma
  \<open>pieces_make_migrateTo_inner\<close>).\<close>

definition step :: "'w env \<Rightarrow> number \<Rightarrow> bool \<Rightarrow> pc \<Rightarrow> 'w state \<Rightarrow> pc \<times> 'w state" where
  "step E target rerun p s =
     (case p of
        PStart \<Rightarrow>
          (case collection s of
             Some c \<Rightarrow> after_control target rerun (c_version c) (emit EvFind s)
           | None \<Rightarrow> (PCreate, emit EvFind s))
      | PCreate \<Rightarrow> after_control target rerun (Fin 0) (setControl (Fin 0) False s)
      | PLock currentVersion \<Rightarrow>
          (case lock s of
             (False, s2) \<Rightarrow> (PDone (Inr ()), log LInfo ControlIsLocked s2)
           | (True, s2) \<Rightarrow>
               if rerun then
                 (let s3 = log LInfo (Rerunning target) s2 in
                  case findIndexByVersion s3 target of
                    Inl e \<Rightarrow> (PUnlock (Inl e) currentVersion, log LError MigrationFailed s3)
                  | Inr idx \<Rightarrow> enter_migrate Up idx InRerun currentVersion s3)
               else
                 (case findIndexByVersion s2 currentVersion of
                    Inl e \<Rightarrow> (PDone (Inl e), s2)
                  | Inr startIdx \<Rightarrow>
                      (case findIndexByVersion s2 target of
                         Inl e \<Rightarrow> (PDone (Inl e), s2)
                       | Inr endIdx \<Rightarrow>
                           loop_head (if num_lt currentVersion target then Up else Down)
                             startIdx endIdx currentVersion
                             (log LInfo
                                (MigratingFromTo (version (m_list s2 ! startIdx))
                                   (version (m_list s2 ! endIdx))) s2))))
      | PCall direction idx f c currentVersion \<Rightarrow>
          (let migration = m_list s ! idx;
               s1 = log LInfo (Running direction (version migration) (maybeName migration)) s;
               (r, w) = call E f [migration] (world s1);
               s2 = (emit (EvCall direction migration [migration]) s1)\<lparr>world := w\<rparr>
           in case r of
                Some e \<Rightarrow> (PUnlock (Inl e) currentVersion, log LError MigrationFailed s2)
              | None \<Rightarrow>
                  (case c of
                     InRerun \<Rightarrow>
                       (PUnlock (Inr ()) currentVersion, log LInfo FinishedMigrating s2)
                   | InLoop i endIdx \<Rightarrow>
                       (PCheckpoint direction i endIdx
                          (version (m_list s2 ! (case direction of Up \<Rightarrow> i + 1 | Down \<Rightarrow> i - 1))),
                        s2)))
      | PMissing e currentVersion \<Rightarrow>
          (PUnlock (Inl e) currentVersion,
           log LError MigrationFailed (unlock_inner currentVersion s))
      | PCheckpoint direction i endIdx currentVersion \<Rightarrow>
          loop_head direction (case direction of Up \<Rightarrow> i + 1 | Down \<Rightarrow> i - 1) endIdx
            currentVersion (updateVersion currentVersion s)
      | PUnlock r currentVersion \<Rightarrow> (PDone r, unlock_inner currentVersion s)
      | PDone r \<Rightarrow> (PDone r, s))"

text \<open>An invocation running alone for a number of pieces.\<close>

fun exec :: "'w env \<Rightarrow> number \<Rightarrow> bool \<Rightarrow> nat \<Rightarrow> pc \<times> 'w state \<Rightarrow> pc \<times> 'w state" where
  "exec E target rerun 0 c = c"
| "exec E target rerun (Suc n) (p, s) = exec E target rerun n (step E target rerun p s)"

text \<open>
  Two invocations \<open>A\<close> and \<open>B\<close> of \<open>_migrateTo(target, false)\<close> on the shared state. Each
  keeps the events it has added to the trace itself. A schedule names, piece by piece, the
  invocation that runs next; an invocation that is done stays as it is.
\<close>

datatype pid = A | B

record 'w system =
  pcA :: pc
  pcB :: pc
  eventsA :: "event list"
  eventsB :: "event list"
  shared :: "'w state"

definition start :: "'w state \<Rightarrow> 'w system" where
  "start s = \<lparr>pcA = PStart, pcB = PStart, eventsA = [], eventsB = [], shared = s\<rparr>"

definition sys_step :: "'w env \<Rightarrow> number \<Rightarrow> pid \<Rightarrow> 'w system \<Rightarrow> 'w system" where
  "sys_step E target who c =
     (case who of
        A \<Rightarrow>
          (let (p, s) = step E target False (pcA c) (shared c)
           in c\<lparr>pcA := p, shared := s,
                eventsA := eventsA c @ drop (length (trace (shared c))) (trace s)\<rparr>)
      | B \<Rightarrow>
          (let (p, s) = step E target False (pcB c) (shared c)
           in c\<lparr>pcB := p, shared := s,
                eventsB := eventsB c @ drop (length (trace (shared c))) (trace s)\<rparr>))"

fun run :: "'w env \<Rightarrow> number \<Rightarrow> pid list \<Rightarrow> 'w system \<Rightarrow> 'w system" where
  "run E target [] c = c"
| "run E target (who # sched) c = run E target sched (sys_step E target who c)"



text \<open>A list as \<open>add\<close> keeps it: not empty, in ascending order of version, with a function
  under \<open>up\<close> in every migration.\<close>

definition registry_ok :: "migration list \<Rightarrow> bool" where
  "registry_ok L = (L \<noteq> [] \<and> sorted_wrt version_le L \<and> list_all (\<lambda>m. is_function (up m)) L)"









section \<open>The registry\<close>

lemma set_insert_sorted: "set (insert_sorted cmp x ys) = insert x (set ys)"
  by (induction ys) auto

lemma set_sort_by: "set (sort_by cmp xs) = set xs"
  by (induction xs) (auto simp: sort_by_def set_insert_sorted)

lemma compare_version_le:
  "finite_version a \<Longrightarrow> finite_version b \<Longrightarrow> (compare_version a b \<le> 0) = version_le a b"
  by (cases "version a"; cases "version b")
     (auto simp: compare_version_def num_gt_def version_le_def finite_version_def)

lemma version_le_total:
  "finite_version a \<Longrightarrow> finite_version b \<Longrightarrow> \<not> version_le a b \<Longrightarrow> version_le b a"
  by (cases "version a"; cases "version b") (auto simp: version_le_def finite_version_def)

lemma version_le_trans:
  "version_le a b \<Longrightarrow> version_le b c \<Longrightarrow> version_le a c"
  by (cases "version a"; cases "version b"; cases "version c") (auto simp: version_le_def)

lemma num_lt_pos_finite: "num_lt (Fin 0) (version x) \<Longrightarrow> finite_version x"
  by (cases "version x") (auto simp: finite_version_def)

text \<open>Inserting into a sorted list keeps it sorted, and sorting sorts, as long as no
  version is \<open>NaN\<close>.\<close>

lemma sorted_insert_sorted:
  "finite_version x \<Longrightarrow> \<forall>y\<in>set ys. finite_version y \<Longrightarrow> sorted_wrt version_le ys \<Longrightarrow>
   sorted_wrt version_le (insert_sorted compare_version x ys)"
proof (induction ys)
  case Nil
  then show ?case by simp
next
  case (Cons y ys)
  show ?case
  proof (cases "version_le x y")
    case True
    with Cons.prems show ?thesis
      by (auto simp: compare_version_le intro: version_le_trans)
  next
    case False
    with Cons.prems have "version_le y x" by (simp add: version_le_total)
    with False Cons show ?thesis
      by (auto simp: compare_version_le set_insert_sorted)
  qed
qed

lemma sorted_sort_by:
  "\<forall>x\<in>set xs. finite_version x \<Longrightarrow> sorted_wrt version_le (sort_by compare_version xs)"
proof (induction xs)
  case Nil
  then show ?case by (simp add: sort_by_def)
next
  case (Cons x xs)
  then have "sorted_wrt version_le (insert_sorted compare_version x (sort_by compare_version xs))"
    by (intro sorted_insert_sorted) (auto simp: set_sort_by)
  then show ?case by (simp add: sort_by_def)
qed

text \<open>Stability: the migrations of one version keep their order. The new element passes
  only elements of a smaller version.\<close>

lemma filter_insert_sorted:
  "finite_version x \<Longrightarrow> \<forall>y\<in>set ys. finite_version y \<Longrightarrow>
   filter (\<lambda>m. version m = v) (insert_sorted compare_version x ys) =
   filter (\<lambda>m. version m = v) (x # ys)"
proof (induction ys)
  case Nil
  then show ?case by simp
next
  case (Cons y ys)
  show ?case
  proof (cases "version_le x y")
    case True
    with Cons.prems show ?thesis by (simp add: compare_version_le)
  next
    case False
    then have "version x \<noteq> version y"
      using Cons.prems
      by (cases "version x"; cases "version y") (auto simp: version_le_def finite_version_def)
    with False Cons show ?thesis by (auto simp: compare_version_le)
  qed
qed

lemma filter_sort_by:
  "\<forall>x\<in>set xs. finite_version x \<Longrightarrow>
   filter (\<lambda>m. version m = v) (sort_by compare_version xs) = filter (\<lambda>m. version m = v) xs"
proof (induction xs)
  case Nil
  then show ?case by (simp add: sort_by_def)
next
  case (Cons x xs)
  then have "filter (\<lambda>m. version m = v) (insert_sorted compare_version x (sort_by compare_version xs))
           = filter (\<lambda>m. version m = v) (x # sort_by compare_version xs)"
    by (intro filter_insert_sorted) (auto simp: set_sort_by)
  with Cons show ?case by (simp add: sort_by_def)
qed

text \<open>An element below all others stays in front.\<close>

lemma sort_by_sentinel_first:
  assumes "\<forall>x\<in>set xs. num_lt (version d) (version x)"
  shows "sort_by compare_version (d # xs) = d # sort_by compare_version xs"
proof -
  have "insert_sorted compare_version d ys = d # ys"
    if "\<forall>y\<in>set ys. num_lt (version d) (version y)" for ys
  proof (cases ys)
    case Nil
    then show ?thesis by simp
  next
    case (Cons y zs)
    with that have "num_lt (version d) (version y)" by simp
    then have "compare_version d y \<le> 0"
      by (cases "version d"; cases "version y") (auto simp: compare_version_def num_gt_def)
    with Cons show ?thesis by simp
  qed
  moreover have "\<forall>y\<in>set (sort_by compare_version xs). num_lt (version d) (version y)"
    using assms by (simp add: set_sort_by)
  ultimately show ?thesis by (simp add: sort_by_def)
qed

text \<open>What a successful \<open>add\<close> has done, for a version other than \<open>NaN\<close>.\<close>

lemma add_step:
  assumes "add m s = (Inr (), s')" and "version m \<noteq> JNum NaN"
  shows "\<exists>q. version m = JNum (Fin q) \<and> 0 < q \<and> is_function (up m) \<and>
             s' = s\<lparr>m_list := sort_by compare_version (m_list s @ [freeze m (Fin q)])\<rparr>"
proof (cases "version m")
  case (JNum n)
  with assms(2) obtain q where "n = Fin q" by (cases n) auto
  with JNum assms(1) show ?thesis by (auto simp: add_def split: if_splits)
qed (use assms(1) in \<open>auto simp: add_def split: if_splits\<close>)

lemma add_all_invariant:
  assumes "add_all ms s = (Inr (), s')"
    and "\<forall>m\<in>set ms. version m \<noteq> JNum NaN"
    and "m_list s = d # xs" and "version d = Fin 0"
    and "\<forall>x\<in>set xs. num_lt (Fin 0) (version x) \<and> frozen x \<and> is_function (up x)"
    and "sorted_wrt version_le xs"
  shows "\<exists>ys. m_list s' = d # ys \<and>
           (\<forall>x\<in>set ys. num_lt (Fin 0) (version x) \<and> frozen x \<and> is_function (up x)) \<and>
           sorted_wrt version_le ys \<and>
           (\<forall>v. filter (\<lambda>m. version m = v) ys =
                 filter (\<lambda>m. version m = v) xs @
                 map (\<lambda>m. freeze m v) (filter (\<lambda>m. version m = JNum v) ms))"
  using assms
proof (induction ms arbitrary: s xs)
  case Nil
  then show ?case by simp
next
  case (Cons m ms)
  from Cons.prems(1) obtain s1
    where s1: "add m s = (Inr (), s1)" and rest: "add_all ms s1 = (Inr (), s')"
    by (auto split: prod.splits sum.splits)
  from add_step[OF s1] Cons.prems(2) obtain q where
    q: "version m = JNum (Fin q)" "0 < q" "is_function (up m)"
    and s1_eq: "s1 = s\<lparr>m_list := sort_by compare_version (m_list s @ [freeze m (Fin q)])\<rparr>"
    by auto
  let ?new = "freeze m (Fin q)"
  let ?zs = "sort_by compare_version (xs @ [?new])"
  have new: "num_lt (Fin 0) (version ?new) \<and> frozen ?new \<and> is_function (up ?new)"
    using q by (simp add: freeze_def)
  have pos: "\<forall>x\<in>set (xs @ [?new]). num_lt (Fin 0) (version x)"
    using Cons.prems(5) new by auto
  then have fin: "\<forall>x\<in>set (xs @ [?new]). finite_version x"
    by (blast intro: num_lt_pos_finite)
  have "\<forall>x\<in>set (xs @ [?new]). num_lt (version d) (version x)"
    using pos Cons.prems(4) by simp
  then have l1: "m_list s1 = d # ?zs"
    using s1_eq Cons.prems(3) sort_by_sentinel_first[of "xs @ [?new]" d] by simp
  have inv: "\<forall>x\<in>set ?zs. num_lt (Fin 0) (version x) \<and> frozen x \<and> is_function (up x)"
    using Cons.prems(5) new by (auto simp: set_sort_by)
  have srt: "sorted_wrt version_le ?zs"
    using fin by (rule sorted_sort_by)
  have flt: "filter (\<lambda>m. version m = v) ?zs = filter (\<lambda>m. version m = v) (xs @ [?new])" for v
    using fin by (rule filter_sort_by)
  from Cons.IH[OF rest _ l1 Cons.prems(4) inv srt] Cons.prems(2)
  obtain ys where ys: "m_list s' = d # ys"
    "\<forall>x\<in>set ys. num_lt (Fin 0) (version x) \<and> frozen x \<and> is_function (up x)"
    "sorted_wrt version_le ys"
    "\<forall>v. filter (\<lambda>m. version m = v) ys =
         filter (\<lambda>m. version m = v) ?zs @
         map (\<lambda>m. freeze m v) (filter (\<lambda>m. version m = JNum v) ms)"
    by auto
  have "filter (\<lambda>m. version m = v) ys =
        filter (\<lambda>m. version m = v) xs @
        map (\<lambda>m. freeze m v) (filter (\<lambda>m. version m = JNum v) (m # ms))" for v
    using ys(4) flt[of v] q by (auto simp: freeze_def)
  with ys show ?case by blast
qed

text \<open>
  The invariant of the registry, as far as it holds. Start from a list that holds the
  sentinel only (the list at load time and after a reset), and let a sequence of \<open>add\<close>
  calls all succeed, none with the version \<open>NaN\<close>. Then the list begins with the
  sentinel and is in ascending order of version; for every version, the migrations of that
  version stand in the order in which they were added; and every migration after the
  sentinel is frozen.
\<close>

theorem registry_invariant:
  assumes "m_list s = [DefaultMigration]"
    and "add_all ms s = (Inr (), s')"
    and "\<forall>m\<in>set ms. version m \<noteq> JNum NaN"
  shows "m_list s' \<noteq> [] \<and> hd (m_list s') = DefaultMigration \<and>
         sorted_wrt (\<lambda>a b. num_le (version a) (version b)) (m_list s') \<and>
         (\<forall>v. filter (\<lambda>m. version m = v) (tl (m_list s')) =
               map (\<lambda>m. freeze m v) (filter (\<lambda>m. version m = JNum v) ms)) \<and>
         (\<forall>m\<in>set (tl (m_list s')). frozen m)"
proof -
  from add_all_invariant[OF assms(2,3) assms(1)]
  obtain ys where ys: "m_list s' = DefaultMigration # ys"
    "\<forall>x\<in>set ys. num_lt (Fin 0) (version x) \<and> frozen x \<and> is_function (up x)"
    "sorted_wrt version_le ys"
    "\<forall>v. filter (\<lambda>m. version m = v) ys =
         map (\<lambda>m. freeze m v) (filter (\<lambda>m. version m = JNum v) ms)"
    by (auto simp: DefaultMigration_def)
  have "version_le DefaultMigration y" if "y \<in> set ys" for y
    using ys(2) that by (cases "version y") (auto simp: version_le_def DefaultMigration_def)
  with ys(3) have "sorted_wrt version_le (DefaultMigration # ys)" by simp
  then have "sorted_wrt (\<lambda>a b. num_le (version a) (version b)) (m_list s')"
    using ys(1) by (simp add: version_le_def[abs_def])
  with ys show ?thesis by simp
qed

text \<open>The theorem at four calls: versions 3, 1, 2 and 1 again, added in this order to the
  list of the initial state.\<close>

theorem registry_invariant_witness:
  "hd (m_list (snd (add_all
       [\<lparr>version = JNum (Fin 3), name = JStr ''c'', up = JFun (UserFn 3), down = JUndefined, frozen = False\<rparr>,
        \<lparr>version = JNum (Fin 1), name = JStr ''a'', up = JFun (UserFn 1), down = JUndefined, frozen = False\<rparr>,
        \<lparr>version = JNum (Fin 2), name = JStr ''b'', up = JFun (UserFn 2), down = JUndefined, frozen = False\<rparr>,
        \<lparr>version = JNum (Fin 1), name = JStr ''d'', up = JFun (UserFn 4), down = JUndefined, frozen = False\<rparr>]
       (initial () 0)))) = DefaultMigration \<and>
   sorted_wrt (\<lambda>a b. num_le (version a) (version b)) (m_list (snd (add_all
       [\<lparr>version = JNum (Fin 3), name = JStr ''c'', up = JFun (UserFn 3), down = JUndefined, frozen = False\<rparr>,
        \<lparr>version = JNum (Fin 1), name = JStr ''a'', up = JFun (UserFn 1), down = JUndefined, frozen = False\<rparr>,
        \<lparr>version = JNum (Fin 2), name = JStr ''b'', up = JFun (UserFn 2), down = JUndefined, frozen = False\<rparr>,
        \<lparr>version = JNum (Fin 1), name = JStr ''d'', up = JFun (UserFn 4), down = JUndefined, frozen = False\<rparr>]
       (initial () 0))))"
proof -
  let ?ms = "[\<lparr>version = JNum (Fin 3), name = JStr ''c'', up = JFun (UserFn 3), down = JUndefined, frozen = False\<rparr>,
        \<lparr>version = JNum (Fin 1), name = JStr ''a'', up = JFun (UserFn 1), down = JUndefined, frozen = False\<rparr>,
        \<lparr>version = JNum (Fin 2), name = JStr ''b'', up = JFun (UserFn 2), down = JUndefined, frozen = False\<rparr>,
        \<lparr>version = JNum (Fin 1), name = JStr ''d'', up = JFun (UserFn 4), down = JUndefined, frozen = False\<rparr>]"
  let ?s = "initial () 0"
  have h1: "m_list ?s = [DefaultMigration]" by (simp add: initial_def)
  have h2: "add_all ?ms ?s = (Inr (), snd (add_all ?ms ?s))"
    by (simp add: add_def initial_def)
  have h3: "\<forall>m\<in>set ?ms. version m \<noteq> JNum NaN" by simp
  from registry_invariant[OF h1 h2 h3] show ?thesis by blast
qed

text \<open>A list of two or more migrations, one of them of the version \<open>NaN\<close>, is not in
  ascending order, however its elements are arranged: \<open>NaN\<close> is neither below nor above
  any version.\<close>

lemma nan_never_ascending:
  assumes "m \<in> set xs" and "version m = NaN" and "2 \<le> length xs"
  shows "\<not> sorted_wrt (\<lambda>a b. num_le (version a) (version b)) xs"
proof
  assume srt: "sorted_wrt (\<lambda>a b. num_le (version a) (version b)) xs"
  from assms(1) obtain i where i: "i < length xs" "xs ! i = m" by (auto simp: in_set_conv_nth)
  obtain j where j: "j < length xs" "j \<noteq> i"
  proof (cases "i = 0")
    case True
    with assms(3) have "1 < length xs" "(1::nat) \<noteq> i" by auto
    then show ?thesis using that by blast
  next
    case False
    with i(1) have "0 < length xs" "0 \<noteq> i" by auto
    then show ?thesis using that by blast
  qed
  show False
  proof (cases "i < j")
    case True
    from sorted_wrt_nth_less[OF srt True j(1)] i(2) assms(2) show False by simp
  next
    case False
    with j(2) have "j < i" by simp
    from sorted_wrt_nth_less[OF srt this i(1)] i(2) assms(2) show False
      by (cases "version (xs ! j)") simp_all
  qed
qed

text \<open>
  Claim C6 says that after every sequence of successful \<open>add\<close> calls the list is in
  ascending order of version, the sentinel first. The code does not keep this: three calls
  of \<open>add\<close>, with the versions 2, \<open>NaN\<close> and 1 in this order, all succeed on the list
  of the initial state, since the test \<^verbatim>\<open>version <= 0\<close> is false of \<open>NaN\<close>. The list
  then holds the versions 0, 2, \<open>NaN\<close>, 1 and is not in ascending order: the step of
  version 1 stands behind the step of version 2.
\<close>

theorem add_nan_unsorted:
  "fst (add_all [sample_step 2, nan_step, sample_step 1] (initial () 0)) = Inr () \<and>
   map version (m_list (snd (add_all [sample_step 2, nan_step, sample_step 1] (initial () 0)))) =
     [Fin 0, Fin 2, NaN, Fin 1] \<and>
   \<not> sorted_wrt (\<lambda>a b. num_le (version a) (version b))
       (m_list (snd (add_all [sample_step 2, nan_step, sample_step 1] (initial () 0))))"
  by (simp add: add_def initial_def nan_step_def sample_step_def sort_by_def
      compare_version_def num_gt_def freeze_def DefaultMigration_def)

text \<open>
  Claim C5, as amended. For a version other than \<open>NaN\<close>, \<open>add\<close> throws exactly when \<open>up\<close>
  is not a function, or the version is not a number, or it is a number not greater than
  zero. A positive number that is not an integer is accepted.
\<close>

theorem add_fails_iff:
  assumes "version m \<noteq> JNum NaN"
  shows "(\<exists>msg. fst (add m s) = Inl (InvalidStep msg)) \<longleftrightarrow>
         (\<not> is_function (up m) \<or> (\<forall>n. version m \<noteq> JNum n) \<or>
          (\<exists>q. version m = JNum (Fin q) \<and> q \<le> 0))"
proof (cases "version m")
  case (JNum n)
  with assms obtain q where "n = Fin q" by (cases n) auto
  with JNum show ?thesis by (auto simp: add_def)
qed (auto simp: add_def)

text \<open>The theorem at the version \<open>3/2\<close> with a function under \<open>up\<close>: no condition of the
  right-hand side holds, and \<open>add\<close> does not throw.\<close>

theorem add_fails_iff_witness:
  "version \<lparr>version = JNum (Fin (3 / 2)), name = JUndefined, up = JFun (UserFn 0),
             down = JUndefined, frozen = False\<rparr> \<noteq> JNum NaN \<and>
   ((\<exists>msg. fst (add \<lparr>version = JNum (Fin (3 / 2)), name = JUndefined, up = JFun (UserFn 0),
                      down = JUndefined, frozen = False\<rparr> (initial () 0)) = Inl (InvalidStep msg)) =
    False)"
proof -
  let ?m = "\<lparr>version = JNum (Fin (3 / 2)), name = JUndefined, up = JFun (UserFn 0),
             down = JUndefined, frozen = False\<rparr>"
  have h: "version ?m \<noteq> JNum NaN" by simp
  have "(\<not> is_function (up ?m) \<or> (\<forall>n. version ?m \<noteq> JNum n) \<or>
          (\<exists>q. version ?m = JNum (Fin q) \<and> q \<le> 0)) = False" by simp
  with add_fails_iff[OF h, of "initial () 0"] h show ?thesis by blast
qed

text \<open>
  Claim C5 as stated fails: the version \<open>3/2\<close> is a number that is not an integer, and
  \<open>add\<close> of a step with this version and a function under \<open>up\<close> returns without throwing.
\<close>

theorem add_noninteger_counterexample:
  "(3 / 2 :: rat) \<notin> \<int> \<and>
   fst (add \<lparr>version = JNum (Fin (3 / 2)), name = JUndefined, up = JFun (UserFn 0),
               down = JUndefined, frozen = False\<rparr> (initial () 0)) = Inr ()"
proof -
  have "(3 / 2 :: rat) \<notin> \<int>"
  proof
    assume "(3 / 2 :: rat) \<in> \<int>"
    then obtain k :: int where k: "(3 / 2 :: rat) = of_int k" by (auto elim: Ints_cases)
    then have "(3::rat) = of_int (2 * k)" by simp
    then have "(3::int) = 2 * k" by (metis of_int_eq_iff of_int_numeral)
    then show False by presburger
  qed
  then show ?thesis by (simp add: add_def)
qed

section \<open>The store and the steps\<close>

text \<open>What each operation leaves of the state.\<close>

lemma emit_simps [simp]:
  "m_list (emit ev s) = m_list s" "collection (emit ev s) = collection s"
  "world (emit ev s) = world s" "clock (emit ev s) = clock s"
  "log_enabled (emit ev s) = log_enabled s" "logIfLatest (emit ev s) = logIfLatest s"
  "trace (emit ev s) = trace s @ [ev]"
  by (simp_all add: emit_def)

lemma log_simps [simp]:
  "m_list (log lv msg s) = m_list s" "collection (log lv msg s) = collection s"
  "world (log lv msg s) = world s" "clock (log lv msg s) = clock s"
  "log_enabled (log lv msg s) = log_enabled s" "logIfLatest (log lv msg s) = logIfLatest s"
  "trace (log lv msg s) = trace s @ (if log_enabled s then [EvLog lv msg] else [])"
  by (simp_all add: log_def)

lemma setControl_simps [simp]:
  "m_list (setControl v l s) = m_list s"
  "collection (setControl v l s) = Some \<lparr>c_version = v, locked = l, lockedAt = clock s\<rparr>"
  "world (setControl v l s) = world s" "clock (setControl v l s) = clock s"
  "log_enabled (setControl v l s) = log_enabled s"
  "logIfLatest (setControl v l s) = logIfLatest s"
  "trace (setControl v l s) = trace s @ [EvSet v l]"
  by (simp_all add: setControl_def)

lemma getControl_Some:
  "collection s = Some c \<Longrightarrow> getControl s = (c_version c, emit EvFind s)"
  by (simp add: getControl_def)

lemma getControl_None:
  "collection s = None \<Longrightarrow> getControl s = (Fin 0, setControl (Fin 0) False (emit EvFind s))"
  by (simp add: getControl_def)

lemma lock_free:
  "collection s = Some c \<Longrightarrow> \<not> locked c \<Longrightarrow>
   lock s = (True, emit (EvLock True)
                (s\<lparr>collection := Some (c\<lparr>locked := True, lockedAt := clock s\<rparr>)\<rparr>))"
  by (simp add: lock_def)


lemma call_returns:
  "fst (body E k args w) = None \<Longrightarrow> call E (UserFn k) args w = (None, snd (body E k args w))"
  by (cases "body E k args w") auto

lemma call_throws:
  "fst (body E k args w) = Some x \<Longrightarrow>
   call E (UserFn k) args w = (Some (UserError x), snd (body E k args w))"
  by (cases "body E k args w") auto

text \<open>One step, when the function of the direction is there and when it is not.\<close>

lemma migrate_function:
  assumes "idx < length (m_list s)" and "field d (m_list s ! idx) = JFun f"
  shows "migrate E d idx cv s =
     (case fst (call E f [m_list s ! idx] (world s)) of None \<Rightarrow> Inr () | Some e \<Rightarrow> Inl e,
      (emit (EvCall d (m_list s ! idx) [m_list s ! idx])
         (log LInfo (Running d (version (m_list s ! idx)) (maybeName (m_list s ! idx))) s))
        \<lparr>world := snd (call E f [m_list s ! idx] (world s))\<rparr>)"
  using assms
  by (cases "call E f [m_list s ! idx] (world s)")
     (auto simp: migrate_def Let_def split: option.splits)

lemma migrate_no_function:
  assumes "idx < length (m_list s)" and "\<not> is_function (field d (m_list s ! idx))"
  shows "migrate E d idx cv s =
     (Inl (DirectionUnsupported d (version (m_list s ! idx))), unlock_inner cv s)"
  using assms
  by (cases "field d (m_list s ! idx)") (auto simp: migrate_def Let_def)

text \<open>The two commands without a subcommand.\<close>

lemma migrateTo_latest:
  "m_list s \<noteq> [] \<Longrightarrow>
   migrateTo E (JStr ''latest'') s = migrateTo_inner E (version (last (m_list s))) False s"
  by (auto simp: migrateTo_def piece_def last_conv_nth split: prod.splits sum.splits)

lemma migrateTo_number:
  "m_list s \<noteq> [] \<Longrightarrow>
   migrateTo E (JNum n) s = migrateTo_inner E (parseInt_num E n) False s"
  by (auto simp: migrateTo_def parseInt_def split: prod.splits sum.splits)

lemmas engine_defs = migrateTo_def migrateTo_inner_def unlock_inner_def updateVersion_def
  findIndexByVersion_def piece_def Let_def effects_def field_def

section \<open>The claims on the engine\<close>

text \<open>
  Claim C9. Whatever control document is stored, in particular one left locked, the public
  \<open>unlock\<close> sets its \<open>locked\<close> to false and changes neither its version nor its time
  stamp, nor anything else of the state.
\<close>

theorem unlock_clears_lock_only:
  assumes "collection s = Some c"
  shows "unlock s =
     (1, s\<lparr>collection := Some (c\<lparr>locked := False\<rparr>), trace := trace s @ [EvUnlock]\<rparr>)"
  using assms by (simp add: unlock_def emit_def)

text \<open>The theorem at a document left locked at version 2 by a crashed run.\<close>

theorem unlock_clears_lock_only_witness:
  "collection (snd (unlock ((initial () 0)
       \<lparr>collection := Some \<lparr>c_version = Fin 2, locked = True, lockedAt = 7\<rparr>\<rparr>))) =
   Some \<lparr>c_version = Fin 2, locked = False, lockedAt = 7\<rparr>"
proof -
  let ?c = "\<lparr>c_version = Fin 2, locked = True, lockedAt = 7\<rparr>"
  let ?s = "(initial () 0)\<lparr>collection := Some ?c\<rparr>"
  have h: "collection ?s = Some ?c" by simp
  have "collection (snd (unlock ?s)) = Some (?c\<lparr>locked := False\<rparr>)"
    by (subst unlock_clears_lock_only[OF h]) simp
  then show ?thesis by simp
qed

text \<open>
  Claim C7. When the stored version equals the target and \<open>rerun\<close> is false, \<open>_migrateTo\<close>
  returns after the one read: the state is the former one but for the trace, to which the
  read and (if enabled) the log message are added. There is no lock attempt, no write and no
  call of a step function. So \<open>migrateTo('latest')\<close> with the stored version at the version
  of the last migration does the same, and so does a second such call after it.
\<close>

theorem fast_path_no_effect:
  assumes "collection s = Some c"
  shows
    "(strict_eq (c_version c) target \<longrightarrow>
        migrateTo_inner E target False s =
          (Inr (), s\<lparr>trace := trace s @ EvFind #
              (if logIfLatest s \<and> log_enabled s
               then [EvLog LInfo (AlreadyAtVersion target)] else [])\<rparr>)) \<and>
     (m_list s \<noteq> [] \<and> strict_eq (c_version c) (version (last (m_list s))) \<longrightarrow>
        fst (migrateTo E (JStr ''latest'') s) = Inr () \<and>
        effects s (snd (migrateTo E (JStr ''latest'') s)) = [EvFind] \<and>
        collection (snd (migrateTo E (JStr ''latest'') s)) = collection s \<and>
        world (snd (migrateTo E (JStr ''latest'') s)) = world s \<and>
        fst (migrateTo E (JStr ''latest'') (snd (migrateTo E (JStr ''latest'') s))) = Inr () \<and>
        effects (snd (migrateTo E (JStr ''latest'') s))
          (snd (migrateTo E (JStr ''latest'') (snd (migrateTo E (JStr ''latest'') s)))) = [EvFind] \<and>
        collection (snd (migrateTo E (JStr ''latest'') (snd (migrateTo E (JStr ''latest'') s)))) =
          collection s \<and>
        world (snd (migrateTo E (JStr ''latest'') (snd (migrateTo E (JStr ''latest'') s)))) =
          world s)"
proof -
  have inner: "migrateTo_inner E target False t =
          (Inr (), t\<lparr>trace := trace t @ EvFind #
              (if logIfLatest t \<and> log_enabled t
               then [EvLog LInfo (AlreadyAtVersion target)] else [])\<rparr>)"
    if "collection t = Some c" "strict_eq (c_version c) target" for t :: "'a state" and target
    using that by (simp add: migrateTo_inner_def getControl_Some log_def emit_def)
  have latest: "migrateTo E (JStr ''latest'') t =
          (Inr (), t\<lparr>trace := trace t @ EvFind #
              (if logIfLatest t \<and> log_enabled t
               then [EvLog LInfo (AlreadyAtVersion (version (last (m_list t))))] else [])\<rparr>)"
    if "collection t = Some c" "m_list t \<noteq> []"
       "strict_eq (c_version c) (version (last (m_list t)))" for t :: "'a state"
    using that inner[of t "version (last (m_list t))"]
    by (simp add: migrateTo_latest)
  show ?thesis
  proof (intro conjI impI)
    assume "strict_eq (c_version c) target"
    with assms show "migrateTo_inner E target False s =
          (Inr (), s\<lparr>trace := trace s @ EvFind #
              (if logIfLatest s \<and> log_enabled s
               then [EvLog LInfo (AlreadyAtVersion target)] else [])\<rparr>)"
      by (rule inner)
  next
    assume a: "m_list s \<noteq> [] \<and> strict_eq (c_version c) (version (last (m_list s)))"
    let ?s1 = "snd (migrateTo E (JStr ''latest'') s)"
    have one: "migrateTo E (JStr ''latest'') s =
          (Inr (), s\<lparr>trace := trace s @ EvFind #
              (if logIfLatest s \<and> log_enabled s
               then [EvLog LInfo (AlreadyAtVersion (version (last (m_list s))))] else [])\<rparr>)"
      using assms a by (intro latest) auto
    then have s1: "collection ?s1 = Some c" "m_list ?s1 = m_list s" "world ?s1 = world s"
      using assms by simp_all
    have two: "migrateTo E (JStr ''latest'') ?s1 =
          (Inr (), ?s1\<lparr>trace := trace ?s1 @ EvFind #
              (if logIfLatest ?s1 \<and> log_enabled ?s1
               then [EvLog LInfo (AlreadyAtVersion (version (last (m_list ?s1))))] else [])\<rparr>)"
      using s1 a by (intro latest) auto
    show "fst (migrateTo E (JStr ''latest'') s) = Inr ()" by (simp add: one)
    show "effects s ?s1 = [EvFind]" by (simp add: one effects_def)
    show "collection ?s1 = collection s" by (simp add: one)
    show "world ?s1 = world s" by (simp add: one)
    show "fst (migrateTo E (JStr ''latest'') ?s1) = Inr ()" by (simp add: two)
    show "effects ?s1 (snd (migrateTo E (JStr ''latest'') ?s1)) = [EvFind]"
      by (simp add: two effects_def)
    show "collection (snd (migrateTo E (JStr ''latest'') ?s1)) = collection s"
      by (simp add: two s1 assms)
    show "world (snd (migrateTo E (JStr ''latest'') ?s1)) = world s"
      by (simp add: two s1)
  qed
qed

text \<open>The sample registry, as \<open>add\<close> has built it.\<close>

lemma m_list_sample:
  "m_list sample =
     [DefaultMigration, freeze (sample_step 1) (Fin 1), freeze (sample_step 2) (Fin 2),
      freeze (sample_step 3) (Fin 3)]"
  by (simp add: sample_def sample_step_def add_def initial_def sort_by_def
      compare_version_def num_gt_def freeze_def DefaultMigration_def)

lemma sample_at_simps [simp]:
  "m_list (sample_at v l) = m_list sample"
  "collection (sample_at v l) = Some \<lparr>c_version = Fin v, locked = l, lockedAt = 0\<rparr>"
  by (simp_all add: sample_at_def)


text \<open>
  Claim C2. With the same list, let \<open>up\<close> of step 1 return and \<open>up\<close> of step 2 throw the
  value \<open>x\<close>. From the stored version 0, unlocked, \<open>_migrateTo(3)\<close> (and \<open>migrateTo('latest')\<close>)
  throws the same value, after the unlocking write has been done: the document is left at
  version 1 and unlocked. \<open>up\<close> of step 2 has been called once, \<open>up\<close> of step 3 not at all.
\<close>

theorem failure_keeps_last_success:
  assumes "m_list s = [DefaultMigration, m1, m2, m3]"
    and "version m1 = Fin 1" and "version m2 = Fin 2" and "version m3 = Fin 3"
    and "up m1 = JFun (UserFn u1)" and "up m2 = JFun (UserFn u2)" and "up m3 = JFun (UserFn u3)"
    and "\<forall>args w. fst (body E u1 args w) = None"
    and "\<forall>args w. fst (body E u2 args w) = Some x"
    and "collection s = Some c" and "c_version c = Fin 0" and "\<not> locked c"
  shows
    "fst (migrateTo_inner E (Fin 3) False s) = Inl (UserError x) \<and>
     effects s (snd (migrateTo_inner E (Fin 3) False s)) =
       [EvFind, EvLock True,
        EvCall Up m1 [m1], EvSet (Fin 1) True,
        EvCall Up m2 [m2],
        EvSet (Fin 1) False] \<and>
     collection (snd (migrateTo_inner E (Fin 3) False s)) =
       Some \<lparr>c_version = Fin 1, locked = False, lockedAt = clock s\<rparr> \<and>
     migrateTo E (JStr ''latest'') s = migrateTo_inner E (Fin 3) False s"
proof (intro conjI)
  show "fst (migrateTo_inner E (Fin 3) False s) = Inl (UserError x)"
    using assms
    by (simp add: engine_defs getControl_Some lock_free migrate_function DefaultMigration_def
        up_loop.simps call_returns call_throws del: call.simps)
  show "effects s (snd (migrateTo_inner E (Fin 3) False s)) =
       [EvFind, EvLock True,
        EvCall Up m1 [m1], EvSet (Fin 1) True,
        EvCall Up m2 [m2],
        EvSet (Fin 1) False]"
    using assms
    by (simp add: engine_defs getControl_Some lock_free migrate_function DefaultMigration_def
        up_loop.simps call_returns call_throws del: call.simps)
  show "collection (snd (migrateTo_inner E (Fin 3) False s)) =
       Some \<lparr>c_version = Fin 1, locked = False, lockedAt = clock s\<rparr>"
    using assms
    by (simp add: engine_defs getControl_Some lock_free migrate_function DefaultMigration_def
        up_loop.simps call_returns call_throws del: call.simps)
  show "migrateTo E (JStr ''latest'') s = migrateTo_inner E (Fin 3) False s"
    using assms(1,4) by (simp add: migrateTo_latest)
qed

lemma clock_sample_at [simp]: "clock (sample_at v l) = 0"
  by (simp add: sample_at_def sample_def sample_step_def add_def initial_def)


text \<open>The theorem on the sample registry, where the user function 2 throws
  \<open>''boom''\<close>.\<close>

theorem failure_keeps_last_success_witness:
  "fst (migrateTo failing_env (JStr ''latest'') (sample_at 0 False)) = Inl (UserError ''boom'') \<and>
   collection (snd (migrateTo failing_env (JStr ''latest'') (sample_at 0 False))) =
     Some \<lparr>c_version = Fin 1, locked = False, lockedAt = 0\<rparr>"
proof -
  let ?m1 = "freeze (sample_step 1) (Fin 1)"
  let ?m2 = "freeze (sample_step 2) (Fin 2)"
  let ?m3 = "freeze (sample_step 3) (Fin 3)"
  have l: "m_list (sample_at 0 False) = [DefaultMigration, ?m1, ?m2, ?m3]"
    by (simp add: m_list_sample)
  have v: "version ?m1 = Fin 1" "version ?m2 = Fin 2" "version ?m3 = Fin 3"
    by (simp_all add: freeze_def)
  have u: "up ?m1 = JFun (UserFn 1)" "up ?m2 = JFun (UserFn 2)" "up ?m3 = JFun (UserFn 3)"
    by (simp_all add: freeze_def sample_step_def)
  have b: "\<forall>args w. fst (body failing_env 1 args w) = None"
    "\<forall>args w. fst (body failing_env 2 args w) = Some ''boom''"
    by (simp_all add: failing_env_def)
  have c: "collection (sample_at 0 False) = Some \<lparr>c_version = Fin 0, locked = False, lockedAt = 0\<rparr>"
    "c_version \<lparr>c_version = Fin 0, locked = False, lockedAt = 0\<rparr> = Fin 0"
    "\<not> locked \<lparr>c_version = Fin 0, locked = False, lockedAt = 0\<rparr>"
    by simp_all
  from failure_keeps_last_success[OF l v u b c] show ?thesis by simp
qed

text \<open>The theorem on the sample registry with the document at version 3: two calls of
  \<open>migrateTo('latest')\<close> in a row.\<close>

theorem fast_path_no_effect_witness:
  "effects (sample_at 3 False) (snd (migrateTo idle_env (JStr ''latest'') (sample_at 3 False))) =
     [EvFind] \<and>
   effects (snd (migrateTo idle_env (JStr ''latest'') (sample_at 3 False)))
     (snd (migrateTo idle_env (JStr ''latest'')
        (snd (migrateTo idle_env (JStr ''latest'') (sample_at 3 False))))) = [EvFind] \<and>
   collection (snd (migrateTo idle_env (JStr ''latest'')
        (snd (migrateTo idle_env (JStr ''latest'') (sample_at 3 False))))) =
     Some \<lparr>c_version = Fin 3, locked = False, lockedAt = 0\<rparr>"
proof -
  have c: "collection (sample_at 3 False) = Some \<lparr>c_version = Fin 3, locked = False, lockedAt = 0\<rparr>"
    by simp
  have p: "m_list (sample_at 3 False) \<noteq> [] \<and>
     strict_eq (c_version \<lparr>c_version = Fin 3, locked = False, lockedAt = 0\<rparr>)
       (version (last (m_list (sample_at 3 False))))"
    by (simp add: m_list_sample freeze_def)
  from fast_path_no_effect[OF c, THEN conjunct2, rule_format, OF p] show ?thesis by simp
qed

section \<open>Commands that name a version\<close>

lemma of_char_digit_char: "d < 10 \<Longrightarrow> (of_char (digit_char d) :: nat) = 48 + d"
  by (simp add: digit_char_def)

lemma digit_val_digit_char: "d < 10 \<Longrightarrow> digit_val (digit_char d) = d"
  by (simp add: digit_val_def of_char_digit_char)

lemma digit_char_neq:
  assumes "d < 10" and "(of_char c :: nat) < 48 \<or> 57 < (of_char c :: nat)"
  shows "digit_char d \<noteq> c"
proof
  assume "digit_char d = c"
  then have "(of_char c :: nat) = 48 + d" using assms(1) by (simp add: of_char_digit_char[symmetric])
  with assms show False by auto
qed

lemma decimal_digits: "c \<in> set (decimal n) \<Longrightarrow> \<exists>d<10. c = digit_char d"
proof (induction n rule: decimal.induct)
  case (1 n)
  show ?case
  proof (cases "n < 10")
    case True
    with "1.prems" show ?thesis by (subst (asm) decimal.simps) auto
  next
    case False
    with "1.prems" have "c \<in> set (decimal (n div 10)) \<or> c = digit_char (n mod 10)"
      by (subst (asm) decimal.simps) auto
    with 1 False show ?thesis by (auto intro: exI[of _ "n mod 10"])
  qed
qed

lemma decimal_not_Nil: "decimal n \<noteq> []"
  by (subst decimal.simps) simp

lemma decimal_no_char:
  assumes "(of_char c :: nat) < 48 \<or> 57 < (of_char c :: nat)"
  shows "c \<notin> set (decimal n)"
  using decimal_digits digit_char_neq[OF _ assms] by blast

lemma digits_value_snoc: "digits_value R (Z @ [c]) = digits_value R Z * R + digit_val c"
  by (simp add: digits_value_def)

lemma digits_value_decimal: "digits_value 10 (decimal n) = n"
proof (induction n rule: decimal.induct)
  case (1 n)
  show ?case
  proof (cases "n < 10")
    case True
    then show ?thesis
      by (subst decimal.simps) (simp add: digits_value_def digit_val_digit_char)
  next
    case False
    with 1 have "digits_value 10 (decimal (n div 10)) = n div 10" by simp
    with False show ?thesis
      by (subst decimal.simps) (simp add: digits_value_snoc digit_val_digit_char)
  qed
qed

text \<open>\<open>parseInt\<close> reads the decimal text of a natural number back: a number up to
  \<open>2^53\<close> as it is, a larger one when the rounding of the host leaves it as it is (as it
  does when the number is a double).\<close>

lemma parseInt_str_decimal:
  assumes "2 ^ 53 < n \<longrightarrow> round_double E (int n) = Fin (of_nat n)"
  shows "parseInt_str E (decimal n) = Fin (of_nat n)"
proof -
  obtain c cs where dec: "decimal n = c # cs"
    using decimal_not_Nil[of n] by (cases "decimal n") auto
  have nw: "\<not> is_white c"
    using decimal_digits[of c n] dec by (auto simp: is_white_def of_char_digit_char)
  have ns: "c \<noteq> CHR ''-''" "c \<noteq> CHR ''+''"
    using decimal_no_char[of "CHR ''-''" n] decimal_no_char[of "CHR ''+''" n] dec by auto
  have nx: "CHR ''x'' \<notin> set (c # cs)" "CHR ''X'' \<notin> set (c # cs)"
    using decimal_no_char[of "CHR ''x''" n] decimal_no_char[of "CHR ''X''" n] dec by auto
  have hex: "take 2 (c # cs) \<noteq> ''0x''" "take 2 (c # cs) \<noteq> ''0X''"
    using nx by (cases cs; auto)+
  have "is_digit 10 x" if "x \<in> set (c # cs)" for x
  proof -
    from that dec decimal_digits[of x n] obtain d where "d < 10" "x = digit_char d" by auto
    then show ?thesis by (simp add: is_digit_def digit_val_digit_char)
  qed
  then have "\<forall>x\<in>set (c # cs). is_digit 10 x" by blast
  then have all: "takeWhile (is_digit 10) (c # cs) = c # cs"
    by (simp only: takeWhile_eq_all_conv)
  have val: "digits_value 10 (c # cs) = n"
    using digits_value_decimal[of n] dec by simp
  have le: "(int n \<le> 2 ^ 53) = (n \<le> 2 ^ 53)"
    by (metis of_nat_le_iff of_nat_numeral of_nat_power)
  show ?thesis
  proof (cases "n \<le> 2 ^ 53")
    case True
    then show ?thesis
      unfolding dec parseInt_str_def using nw ns hex all val le
      by (auto simp: Let_def)
  next
    case False
    with assms have "round_double E (int n) = Fin (of_nat n)" by simp
    with False show ?thesis
      unfolding dec parseInt_str_def using nw ns hex all val le
      by (auto simp: Let_def)
  qed
qed

lemma split_comma_append:
  "CHR '','' \<notin> set xs \<Longrightarrow> split_comma (xs @ CHR '','' # ys) = xs # split_comma ys"
  by (induction xs) auto

lemma decimal_not_latest: "decimal n \<noteq> ''latest''"
proof
  assume "decimal n = ''latest''"
  then have "CHR ''l'' \<in> set (decimal n)" by simp
  then show False using decimal_no_char[of "CHR ''l''" n] by simp
qed

lemma migrateTo_rerun:
  assumes "m_list s \<noteq> []" and "2 ^ 53 < n \<longrightarrow> round_double E (int n) = Fin (of_nat n)"
  shows "migrateTo E (JStr (decimal n @ '',rerun'')) s =
         migrateTo_inner E (Fin (of_nat n)) True s"
proof -
  have "CHR '','' \<notin> set (decimal n)"
    using decimal_no_char[of "CHR '',''" n] by simp
  then have sp: "split_comma (decimal n @ '',rerun'') = [decimal n, ''rerun'']"
    using split_comma_append[of "decimal n" "''rerun''"] by simp
  have ne: "decimal n @ '',rerun'' \<noteq> []" by simp
  show ?thesis
    using assms(1) ne decimal_not_latest[of n] parseInt_str_decimal[OF assms(2)]
    by (auto simp: migrateTo_def sp piece_def parseInt_def
        split: prod.splits sum.splits)
qed

text \<open>The index \<open>_findIndexByVersion\<close> returns is inside the list, holds the version, and
  is the first one that does.\<close>

lemma findIndexFrom_Inr:
  "findIndexFrom k xs v = Inr i \<Longrightarrow>
   k \<le> i \<and> i - k < length xs \<and> strict_eq (version (xs ! (i - k))) v \<and>
   (\<forall>j<i - k. \<not> strict_eq (version (xs ! j)) v)"
proof (induction xs arbitrary: k)
  case Nil
  then show ?case by simp
next
  case (Cons x xs)
  show ?case
  proof (cases "strict_eq (version x) v")
    case True
    with Cons.prems show ?thesis by simp
  next
    case False
    with Cons.prems have "findIndexFrom (Suc k) xs v = Inr i" by simp
    from Cons.IH[OF this] have ih: "Suc k \<le> i" "i - Suc k < length xs"
      "strict_eq (version (xs ! (i - Suc k))) v"
      "\<forall>j<i - Suc k. \<not> strict_eq (version (xs ! j)) v"
      by auto
    from ih(1) have eq: "i - k = Suc (i - Suc k)" by simp
    have "\<not> strict_eq (version ((x # xs) ! j)) v" if "j < i - k" for j
      using that ih(4) False eq by (cases j) auto
    with ih eq show ?thesis by simp
  qed
qed

lemma findIndexByVersion_Inr:
  "findIndexByVersion s v = Inr i \<Longrightarrow>
   i < length (m_list s) \<and> strict_eq (version (m_list s ! i)) v \<and>
   (\<forall>j<i. \<not> strict_eq (version (m_list s ! j)) v)"
  using findIndexFrom_Inr[of 0 "m_list s" v i] by (simp add: findIndexByVersion_def)






section \<open>The calls of step functions\<close>

lemma extends_refl: "extends I s s"
  by (simp add: extends_def)

lemma extends_trans:
  assumes "extends I s s1" and "extends J s1 s2" and "I \<subseteq> K" and "J \<subseteq> K"
  shows "extends K s s2"
proof -
  from assms(1) obtain evs where 1: "m_list s1 = m_list s" "trace s1 = trace s @ evs"
    "\<forall>d m args. EvCall d m args \<in> set evs \<longrightarrow>
        args = [m] \<and> (\<exists>i\<in>I. i < length (m_list s) \<and> m = m_list s ! i)"
    by (auto simp: extends_def)
  from assms(2) obtain evs' where 2: "m_list s2 = m_list s1" "trace s2 = trace s1 @ evs'"
    "\<forall>d m args. EvCall d m args \<in> set evs' \<longrightarrow>
        args = [m] \<and> (\<exists>i\<in>J. i < length (m_list s1) \<and> m = m_list s1 ! i)"
    by (auto simp: extends_def)
  have "trace s2 = trace s @ (evs @ evs')" using 1 2 by simp
  moreover have "\<forall>d m args. EvCall d m args \<in> set (evs @ evs') \<longrightarrow>
        args = [m] \<and> (\<exists>i\<in>K. i < length (m_list s) \<and> m = m_list s ! i)"
    using 1 2 assms(3,4) by (auto, blast+)
  ultimately show ?thesis using 1 2 unfolding extends_def by metis
qed

lemma extends_mono: "extends I s s' \<Longrightarrow> I \<subseteq> K \<Longrightarrow> extends K s s'"
  using extends_trans[OF _ extends_refl] by blast

lemma extends_log: "extends I s (log lv msg s)"
  by (simp add: extends_def)

lemma extends_setControl: "extends I s (setControl v l s)"
  by (simp add: extends_def)

lemma extends_getControl: "extends I s (snd (getControl s))"
  by (auto simp: extends_def getControl_def split: option.splits)

lemma extends_lock: "extends I s (snd (lock s))"
  by (auto simp: extends_def lock_def split: option.splits)

lemma extends_migrate: "extends {idx} s (snd (migrate E d idx cv s))"
proof (cases "idx < length (m_list s)")
  case False
  then show ?thesis by (simp add: migrate_def extends_def)
next
  case True
  show ?thesis
  proof (cases "field d (m_list s ! idx)")
    case (JFun f)
    from migrate_function[OF True this] True show ?thesis
      by (simp add: extends_def)
  qed (use True in \<open>simp_all add: migrate_no_function unlock_inner_def extends_def\<close>)
qed

lemma extends_up_loop:
  "extends {i + 1..endIdx} s (snd (snd (up_loop E i endIdx cv s)))"
proof (induction E i endIdx cv s rule: up_loop.induct)
  case (1 E i endIdx cv s)
  show ?case
  proof (cases "i < endIdx")
    case False
    then show ?thesis by (simp add: up_loop.simps extends_refl)
  next
    case True
    obtain r s1 where m: "migrate E Up (i + 1) cv s = (r, s1)" by (cases "migrate E Up (i + 1) cv s")
    have e1: "extends {i + 1} s s1" using extends_migrate[of "i + 1" s E Up cv] m by simp
    show ?thesis
    proof (cases r)
      case (Inl e)
      with True m e1 show ?thesis
        by (simp add: up_loop.simps) (erule extends_mono, simp)
    next
      case (Inr u)
      let ?cv = "version (m_list s1 ! (i + 1))"
      have e2: "extends {i + 1} s (updateVersion ?cv s1)"
        using extends_trans[OF e1 extends_setControl[of "{}"], where K = "{i + 1}"]
        by (simp add: updateVersion_def)
      have "extends {i + 1 + 1..endIdx} (updateVersion ?cv s1)
              (snd (snd (up_loop E (i + 1) endIdx ?cv (updateVersion ?cv s1))))"
        using "1.IH"[OF True m[symmetric] Inr refl] by simp
      from extends_trans[OF e2 this, where K = "{i + 1..endIdx}"] True
      have "extends {i + 1..endIdx} s
              (snd (snd (up_loop E (i + 1) endIdx ?cv (updateVersion ?cv s1))))"
        by auto
      with True m Inr show ?thesis by (simp add: up_loop.simps[of E i] Let_def)
    qed
  qed
qed

lemma extends_down_loop:
  "extends {endIdx + 1..i} s (snd (snd (down_loop E i endIdx cv s)))"
proof (induction E i endIdx cv s rule: down_loop.induct)
  case (1 E i endIdx cv s)
  show ?case
  proof (cases "i > endIdx")
    case False
    then show ?thesis by (simp add: down_loop.simps extends_refl)
  next
    case True
    obtain r s1 where m: "migrate E Down i cv s = (r, s1)" by (cases "migrate E Down i cv s")
    have e1: "extends {i} s s1" using extends_migrate[of i s E Down cv] m by simp
    show ?thesis
    proof (cases r)
      case (Inl e)
      with True m e1 show ?thesis
        by (simp add: down_loop.simps) (erule extends_mono, simp)
    next
      case (Inr u)
      let ?cv = "version (m_list s1 ! (i - 1))"
      have e2: "extends {i} s (updateVersion ?cv s1)"
        using extends_trans[OF e1 extends_setControl[of "{}"], where K = "{i}"]
        by (simp add: updateVersion_def)
      have "extends {endIdx + 1..i - 1} (updateVersion ?cv s1)
              (snd (snd (down_loop E (i - 1) endIdx ?cv (updateVersion ?cv s1))))"
        using "1.IH"[OF True m[symmetric] Inr refl] by simp
      from extends_trans[OF e2 this, where K = "{endIdx + 1..i}"] True
      have "extends {endIdx + 1..i} s
              (snd (snd (down_loop E (i - 1) endIdx ?cv (updateVersion ?cv s1))))"
        by auto
      with True m Inr show ?thesis by (simp add: down_loop.simps[of E i] Let_def)
    qed
  qed
qed

lemma extends_step_log: "extends I s t \<Longrightarrow> extends I s (log lv msg t)"
  using extends_trans[OF _ extends_log[of I]] by blast

lemma extends_step_setControl: "extends I s t \<Longrightarrow> extends I s (setControl v l t)"
  using extends_trans[OF _ extends_setControl[of I]] by blast

lemma extends_step_migrate:
  "extends I s t \<Longrightarrow> migrate E d idx cv t = (r, t') \<Longrightarrow> idx \<in> I \<Longrightarrow> extends I s t'"
  using extends_trans[OF _ extends_migrate[of idx t E d cv], of I s I] by simp

lemma extends_step_up_loop:
  "extends I s t \<Longrightarrow> up_loop E i endIdx cv t = (r, cv', t') \<Longrightarrow> {i + 1..endIdx} \<subseteq> I \<Longrightarrow>
   extends I s t'"
  using extends_trans[OF _ extends_up_loop[of i endIdx t E cv], of I s I] by simp

lemma extends_step_down_loop:
  "extends I s t \<Longrightarrow> down_loop E i endIdx cv t = (r, cv', t') \<Longrightarrow> {endIdx + 1..i} \<subseteq> I \<Longrightarrow>
   extends I s t'"
  using extends_trans[OF _ extends_down_loop[of endIdx i t E cv], of I s I] by simp

lemma findIndexByVersion_cong:
  "m_list t = m_list s \<Longrightarrow> findIndexByVersion t v = findIndexByVersion s v"
  by (simp add: findIndexByVersion_def)

text \<open>The calls of one run of \<open>_migrateTo\<close>: in a rerun, on the migration at the index
  found for the target; otherwise on migrations at indices from 1 on.\<close>

lemma extends_migrateTo_inner:
  "extends (if rerun then {i. findIndexByVersion s target = Inr i} else {1..}) s
     (snd (migrateTo_inner E target rerun s))"
proof -
  let ?I = "if rerun then {i. findIndexByVersion s target = Inr i} else {1..}"
  obtain cv s1 where g: "getControl s = (cv, s1)" by (cases "getControl s")
  have e1: "extends ?I s s1" using extends_getControl[of ?I s] g by simp
  obtain b s2 where l: "lock s1 = (b, s2)" by (cases "lock s1")
  have e2: "extends ?I s s2"
    using extends_trans[OF e1 extends_lock[of ?I s1], of ?I] l by simp
  have ml: "m_list s2 = m_list s" using e2 by (simp add: extends_def)
  show ?thesis
  proof (cases "\<not> rerun \<and> strict_eq cv target")
    case True
    with g e1 show ?thesis
      by (simp add: migrateTo_inner_def extends_step_log)
  next
    case fast: False
    show ?thesis
    proof (cases b)
      case False
      with fast g l e2 show ?thesis
        by (auto simp: migrateTo_inner_def extends_step_log)
    next
      case locked: True
      show ?thesis
      proof (cases rerun)
        case True
        let ?s3 = "log LInfo (Rerunning target) s2"
        have e3: "extends ?I s ?s3" using e2 by (rule extends_step_log)
        have f: "findIndexByVersion ?s3 target = findIndexByVersion s target"
          using ml by (simp add: findIndexByVersion_def)
        show ?thesis
        proof (cases "findIndexByVersion s target")
          case (Inl e)
          with True g l locked f e3 show ?thesis
            by (simp add: migrateTo_inner_def unlock_inner_def
                extends_step_log extends_step_setControl)
        next
          case (Inr idx)
          obtain r s' where m: "migrate E Up idx cv ?s3 = (r, s')"
            by (cases "migrate E Up idx cv ?s3")
          have e4: "extends ?I s s'"
            using e3 m by (rule extends_step_migrate) (simp add: True Inr)
          from True g l locked f Inr m e4 show ?thesis
            by (cases r)
               (simp_all add: migrateTo_inner_def unlock_inner_def
                extends_step_log extends_step_setControl)
        qed
      next
        case False
        show ?thesis
        proof (cases "findIndexByVersion s2 cv")
          case (Inl e)
          with False fast g l locked e2 show ?thesis
            by (simp add: migrateTo_inner_def)
        next
          case start: (Inr startIdx)
          show ?thesis
          proof (cases "findIndexByVersion s2 target")
            case (Inl e)
            with False fast g l locked e2 start show ?thesis
              by (simp add: migrateTo_inner_def)
          next
            case (Inr endIdx)
            let ?s3 = "log LInfo (MigratingFromTo (version (m_list s2 ! startIdx))
                                  (version (m_list s2 ! endIdx))) s2"
            have e3: "extends ?I s ?s3" using e2 by (rule extends_step_log)
            obtain r cv' s4 where lp:
              "(if num_lt cv target then up_loop E startIdx endIdx cv ?s3
                else down_loop E startIdx endIdx cv ?s3) = (r, cv', s4)"
              using prod_cases3 by blast
            have e4: "extends ?I s s4"
            proof (cases "num_lt cv target")
              case True
              with lp have "up_loop E startIdx endIdx cv ?s3 = (r, cv', s4)" by simp
              with e3 show ?thesis
                by (rule extends_step_up_loop) (auto simp: False)
            next
              case nlt: False
              with lp have "down_loop E startIdx endIdx cv ?s3 = (r, cv', s4)" by simp
              with e3 show ?thesis
                by (rule extends_step_down_loop) (auto simp: False)
            qed
            from False fast g l locked start Inr lp e4 show ?thesis
              by (cases r)
                 (simp_all add: migrateTo_inner_def unlock_inner_def Let_def
                  extends_step_log extends_step_setControl)
          qed
        qed
      qed
    qed
  qed
qed

text \<open>
  Claim C10, as amended. Let the list be the sentinel followed by frozen migrations, as
  \<open>add\<close> builds it. Every call of a step function made by a run of \<open>_migrateTo\<close>, in the
  sequential path and in the rerun path, passes one argument, the migration object of the
  list whose function is called. This object is frozen, except in the rerun of version 0,
  which calls the function of the sentinel with the sentinel, an object that is not frozen.
\<close>

theorem step_called_with_migration:
  assumes "m_list s = DefaultMigration # xs" and "\<forall>x\<in>set xs. frozen x"
    and "EvCall d m args \<in> set (effects s (snd (migrateTo_inner E target rerun s)))"
  shows "args = [m] \<and> m \<in> set (m_list s) \<and>
         (frozen m \<or> (rerun \<and> target = Fin 0 \<and> m = DefaultMigration))"
proof -
  let ?I = "if rerun then {i. findIndexByVersion s target = Inr i} else {1..}"
  let ?s' = "snd (migrateTo_inner E target rerun s)"
  from extends_migrateTo_inner[of rerun s target E]
  obtain evs where evs: "trace ?s' = trace s @ evs"
    "\<forall>d m args. EvCall d m args \<in> set evs \<longrightarrow>
        args = [m] \<and> (\<exists>i\<in>?I. i < length (m_list s) \<and> m = m_list s ! i)"
    unfolding extends_def by blast
  from assms(3) evs(1) have "EvCall d m args \<in> set evs"
    by (simp add: effects_def)
  with evs(2) obtain i where i: "args = [m]" "i \<in> ?I" "i < length (m_list s)" "m = m_list s ! i"
    by blast
  have mem: "m \<in> set (m_list s)" using i(3,4) by simp
  show ?thesis
  proof (cases i)
    case 0
    with i(2) have r: "rerun" and f: "findIndexByVersion s target = Inr 0"
      by (auto split: if_splits)
    from findIndexByVersion_Inr[OF f] assms(1) have "strict_eq (Fin 0) target"
      by (simp add: DefaultMigration_def)
    then have "target = Fin 0" by (cases target) auto
    with r 0 i assms(1) mem show ?thesis by simp
  next
    case (Suc j)
    with i(3,4) assms(1) have "m \<in> set xs" by simp
    with assms(2) i(1) mem show ?thesis by simp
  qed
qed

text \<open>The theorem on the sample registry: the call made by \<open>migrateTo('2,rerun')\<close>.\<close>

theorem step_called_with_migration_witness:
  "frozen (freeze (sample_step 2) (Fin 2)) \<and>
   freeze (sample_step 2) (Fin 2) \<in> set (m_list (sample_at 2 False))"
proof -
  let ?m = "freeze (sample_step 2) (Fin 2)"
  have l: "m_list (sample_at 2 False) =
      DefaultMigration # [freeze (sample_step 1) (Fin 1), ?m, freeze (sample_step 3) (Fin 3)]"
    by (simp add: m_list_sample)
  have fr: "\<forall>x\<in>set [freeze (sample_step 1) (Fin 1), ?m, freeze (sample_step 3) (Fin 3)]. frozen x"
    by (simp add: freeze_def)
  have c: "collection (sample_at 2 False) = Some \<lparr>c_version = Fin 2, locked = False, lockedAt = 0\<rparr>"
    by simp
  have ev: "EvCall Up ?m [?m] \<in>
      set (effects (sample_at 2 False) (snd (migrateTo_inner idle_env (Fin 2) True (sample_at 2 False))))"
    by (simp add: engine_defs getControl_Some[OF c]
        lock_free[where c = "\<lparr>c_version = Fin 2, locked = False, lockedAt = 0\<rparr>"]
        migrate_function m_list_sample freeze_def sample_step_def DefaultMigration_def
        idle_env_def)
  from step_called_with_migration[OF l fr ev] have
    "frozen ?m \<or> (True \<and> Fin 2 = Fin 0 \<and> ?m = DefaultMigration)"
    "?m \<in> set (m_list (sample_at 2 False))" by blast+
  then show ?thesis by auto
qed

text \<open>
  Claim C10 as stated fails on the sentinel: from the initial state, \<open>migrateTo('0,rerun')\<close>
  calls the \<open>up\<close> function of the sentinel with the sentinel as argument, and the sentinel
  is not frozen.
\<close>

theorem rerun_sentinel_counterexample:
  "effects (initial () 0) (snd (migrateTo idle_env (JStr ''0,rerun'') (initial () 0))) =
     [EvFind, EvSet (Fin 0) False, EvLock True,
      EvCall Up DefaultMigration [DefaultMigration], EvSet (Fin 0) False] \<and>
   \<not> frozen DefaultMigration"
proof -
  have d: "decimal 0 = ''0''" by code_simp
  have "migrateTo idle_env (JStr (decimal 0 @ '',rerun'')) (initial () 0) =
        migrateTo_inner idle_env (Fin (of_nat 0)) True (initial () 0)"
    by (rule migrateTo_rerun) (simp_all add: initial_def)
  then have run: "migrateTo idle_env (JStr ''0,rerun'') (initial () 0) =
        migrateTo_inner idle_env (Fin 0) True (initial () 0)"
    by (simp add: d)
  have c: "collection (initial () 0) = None" by (simp add: initial_def)
  have l: "m_list (initial () 0) = [DefaultMigration]" by (simp add: initial_def)
  have i: "clock (initial () 0) = 0" "trace (initial () 0) = []" "log_enabled (initial () 0)"
    "world (initial () 0) = ()"
    by (simp_all add: initial_def)
  let ?s1 = "setControl (Fin 0) False (emit EvFind (initial () 0))"
  have c1: "collection ?s1 = Some \<lparr>c_version = Fin 0, locked = False, lockedAt = clock (emit EvFind (initial () 0))\<rparr>"
    by simp
  show ?thesis
    unfolding run
    by (simp add: engine_defs getControl_None[OF c]
        lock_free[where c = "\<lparr>c_version = Fin 0, locked = False, lockedAt = 0\<rparr>"]
        migrate_function l DefaultMigration_def i)
qed

section \<open>The errors of \<open>migrateTo\<close>\<close>

text \<open>No error thrown inside \<open>_migrateTo\<close> is the error of an invalid command.\<close>

lemma call_error: "fst (call E f args w) = Some e \<Longrightarrow> \<exists>x. e = UserError x"
  by (cases f; cases "body E (case f of UserFn k \<Rightarrow> k | Noop \<Rightarrow> 0) args w")
     (auto split: option.splits)

lemma migrate_error:
  assumes "migrate E d idx cv s = (Inl e, s')"
  shows "e \<noteq> InvalidCommand c"
proof (cases "idx < length (m_list s)")
  case False
  with assms show ?thesis by (auto simp: migrate_def)
next
  case True
  show ?thesis
  proof (cases "field d (m_list s ! idx)")
    case (JFun f)
    from migrate_function[OF True this, of E cv] assms
    have "fst (call E f [m_list s ! idx] (world s)) = Some e"
      by (auto split: option.splits)
    from call_error[OF this] show ?thesis by auto
  qed (use True assms in \<open>auto simp: migrate_no_function\<close>)
qed

lemma up_loop_error:
  "up_loop E i endIdx cv s = (Inl e, cv', s') \<Longrightarrow> e \<noteq> InvalidCommand c"
proof (induction E i endIdx cv s rule: up_loop.induct)
  case (1 E i endIdx cv s)
  from "1.prems" have lt: "i < endIdx"
    by (subst (asm) up_loop.simps) (auto split: if_splits)
  obtain r s1 where m: "migrate E Up (i + 1) cv s = (r, s1)"
    by (cases "migrate E Up (i + 1) cv s")
  show ?case
  proof (cases r)
    case (Inl e')
    with "1.prems" lt m have "e' = e" by (subst (asm) up_loop.simps) simp
    with m Inl migrate_error show ?thesis by blast
  next
    case (Inr u)
    with "1.prems" lt m have
      "up_loop E (i + 1) endIdx (version (m_list s1 ! (i + 1)))
         (updateVersion (version (m_list s1 ! (i + 1))) s1) = (Inl e, cv', s')"
      by (subst (asm) up_loop.simps) (simp add: Let_def)
    from "1.IH"[OF lt m[symmetric] Inr refl this] show ?thesis .
  qed
qed

lemma down_loop_error:
  "down_loop E i endIdx cv s = (Inl e, cv', s') \<Longrightarrow> e \<noteq> InvalidCommand c"
proof (induction E i endIdx cv s rule: down_loop.induct)
  case (1 E i endIdx cv s)
  from "1.prems" have lt: "i > endIdx"
    by (subst (asm) down_loop.simps) (auto split: if_splits)
  obtain r s1 where m: "migrate E Down i cv s = (r, s1)"
    by (cases "migrate E Down i cv s")
  show ?case
  proof (cases r)
    case (Inl e')
    with "1.prems" lt m have "e' = e" by (subst (asm) down_loop.simps) simp
    with m Inl migrate_error show ?thesis by blast
  next
    case (Inr u)
    with "1.prems" lt m have
      "down_loop E (i - 1) endIdx (version (m_list s1 ! (i - 1)))
         (updateVersion (version (m_list s1 ! (i - 1))) s1) = (Inl e, cv', s')"
      by (subst (asm) down_loop.simps) (simp add: Let_def)
    from "1.IH"[OF lt m[symmetric] Inr refl this] show ?thesis .
  qed
qed

lemma findIndexFrom_error: "findIndexFrom k xs v = Inl e \<Longrightarrow> e = VersionNotFound v"
  by (induction xs arbitrary: k) (auto split: if_splits)

lemma findIndexByVersion_error: "findIndexByVersion s v = Inl e \<Longrightarrow> e = VersionNotFound v"
  by (simp add: findIndexByVersion_def findIndexFrom_error)

text \<open>The ways through \<open>_migrateTo\<close>.\<close>

lemma migrateTo_inner_cases:
  obtains
    (skip) cv s1 where "getControl s = (cv, s1)" "\<not> rerun" "strict_eq cv target"
      "migrateTo_inner E target rerun s =
         (Inr (), if logIfLatest s1 then log LInfo (AlreadyAtVersion target) s1 else s1)"
  | (denied) cv s1 s2 where "getControl s = (cv, s1)" "rerun \<or> \<not> strict_eq cv target"
      "lock s1 = (False, s2)"
      "migrateTo_inner E target rerun s = (Inr (), log LInfo ControlIsLocked s2)"
  | (rerun_missing) cv s1 s2 e where "getControl s = (cv, s1)" "lock s1 = (True, s2)" "rerun"
      "findIndexByVersion s2 target = Inl e"
      "migrateTo_inner E target rerun s =
         (Inl e, unlock_inner cv (log LError MigrationFailed (log LInfo (Rerunning target) s2)))"
  | (rerun) cv s1 s2 idx r s' where "getControl s = (cv, s1)" "lock s1 = (True, s2)" "rerun"
      "findIndexByVersion s2 target = Inr idx"
      "migrate E Up idx cv (log LInfo (Rerunning target) s2) = (r, s')"
      "migrateTo_inner E target rerun s =
         (r, unlock_inner cv
               (case r of Inl e \<Rightarrow> log LError MigrationFailed s'
                | Inr u \<Rightarrow> log LInfo FinishedMigrating s'))"
  | (no_start) cv s1 s2 e where "getControl s = (cv, s1)" "lock s1 = (True, s2)" "\<not> rerun"
      "\<not> strict_eq cv target" "findIndexByVersion s2 cv = Inl e"
      "migrateTo_inner E target rerun s = (Inl e, s2)"
  | (no_end) cv s1 s2 startIdx e where "getControl s = (cv, s1)" "lock s1 = (True, s2)"
      "\<not> rerun" "\<not> strict_eq cv target" "findIndexByVersion s2 cv = Inr startIdx"
      "findIndexByVersion s2 target = Inl e"
      "migrateTo_inner E target rerun s = (Inl e, s2)"
  | (sequential) cv s1 s2 startIdx endIdx r cv' s4 where
      "getControl s = (cv, s1)" "lock s1 = (True, s2)" "\<not> rerun" "\<not> strict_eq cv target"
      "findIndexByVersion s2 cv = Inr startIdx" "findIndexByVersion s2 target = Inr endIdx"
      "(if num_lt cv target
        then up_loop E startIdx endIdx cv
               (log LInfo (MigratingFromTo (version (m_list s2 ! startIdx))
                            (version (m_list s2 ! endIdx))) s2)
        else down_loop E startIdx endIdx cv
               (log LInfo (MigratingFromTo (version (m_list s2 ! startIdx))
                            (version (m_list s2 ! endIdx))) s2)) = (r, cv', s4)"
      "migrateTo_inner E target rerun s =
         (r, unlock_inner cv'
               (case r of Inl e \<Rightarrow> log LError MigrationFailed s4
                | Inr u \<Rightarrow> log LInfo FinishedMigrating s4))"
proof -
  obtain cv s1 where g: "getControl s = (cv, s1)" by (cases "getControl s")
  obtain b s2 where l: "lock s1 = (b, s2)" by (cases "lock s1")
  show ?thesis
  proof (cases "\<not> rerun \<and> strict_eq cv target")
    case True
    with g show ?thesis by (intro skip[of cv s1]) (simp_all add: migrateTo_inner_def)
  next
    case fast: False
    show ?thesis
    proof (cases b)
      case False
      with fast g l show ?thesis
        by (intro denied[of cv s1 s2]) (auto simp: migrateTo_inner_def)
    next
      case locked: True
      show ?thesis
      proof (cases rerun)
        case True
        let ?s3 = "log LInfo (Rerunning target) s2"
        have f: "findIndexByVersion ?s3 target = findIndexByVersion s2 target"
          by (simp add: findIndexByVersion_def)
        show ?thesis
        proof (cases "findIndexByVersion s2 target")
          case (Inl e)
          with True g l locked f show ?thesis
            by (intro rerun_missing[of cv s1 s2 e]) (simp_all add: migrateTo_inner_def)
        next
          case (Inr idx)
          obtain r s' where m: "migrate E Up idx cv ?s3 = (r, s')"
            by (cases "migrate E Up idx cv ?s3")
          from True g l locked f Inr m show ?thesis
            by (intro rerun[of cv s1 s2 idx r s']; cases r)
               (simp_all add: migrateTo_inner_def)
        qed
      next
        case False
        show ?thesis
        proof (cases "findIndexByVersion s2 cv")
          case (Inl e)
          with False fast g l locked show ?thesis
            by (intro no_start[of cv s1 s2 e]) (simp_all add: migrateTo_inner_def)
        next
          case start: (Inr startIdx)
          show ?thesis
          proof (cases "findIndexByVersion s2 target")
            case (Inl e)
            with False fast g l locked start show ?thesis
              by (intro no_end[of cv s1 s2 startIdx e]) (simp_all add: migrateTo_inner_def)
          next
            case (Inr endIdx)
            let ?s3 = "log LInfo (MigratingFromTo (version (m_list s2 ! startIdx))
                                  (version (m_list s2 ! endIdx))) s2"
            obtain r cv' s4 where lp:
              "(if num_lt cv target then up_loop E startIdx endIdx cv ?s3
                else down_loop E startIdx endIdx cv ?s3) = (r, cv', s4)"
              using prod_cases3 by blast
            from False fast g l locked start Inr lp show ?thesis
              by (intro sequential[of cv s1 s2 startIdx endIdx r cv' s4]; cases r)
                 (simp_all add: migrateTo_inner_def Let_def)
          qed
        qed
      qed
    qed
  qed
qed

lemma migrateTo_inner_error:
  assumes "fst (migrateTo_inner E target rerun s) = Inl e"
  shows "e \<noteq> InvalidCommand c"
proof (cases rule: migrateTo_inner_cases[of s rerun target E])
  case (skip cv s1)
  with assms show ?thesis by auto
next
  case (denied cv s1 s2)
  with assms show ?thesis by auto
next
  case (rerun_missing cv s1 s2 e')
  with assms findIndexByVersion_error[of s2 target e'] show ?thesis by auto
next
  case (rerun cv s1 s2 idx r s')
  with assms migrate_error[of E Up idx cv _ e s' c] show ?thesis by auto
next
  case (no_start cv s1 s2 e')
  with assms findIndexByVersion_error[of s2 cv e'] show ?thesis by auto
next
  case (no_end cv s1 s2 startIdx e')
  with assms findIndexByVersion_error[of s2 target e'] show ?thesis by auto
next
  case (sequential cv s1 s2 startIdx endIdx r cv' s4)
  with assms have r: "r = Inl e" by simp
  with sequential(7) up_loop_error[of E startIdx endIdx cv _ e cv' s4 c]
    down_loop_error[of E startIdx endIdx cv _ e cv' s4 c]
  show ?thesis by (auto split: if_splits)
qed

text \<open>
  Claim C4, as amended. \<open>migrateTo\<close> throws the error of an invalid command exactly when
  the command is \<open>undefined\<close> or the empty string, or the list is empty. The list of a
  state kept by \<open>add\<close> and \<open>reset\<close> always holds the sentinel and is never empty (see
  \<open>list_never_empty\<close> below), so a list that holds the sentinel only does not make the
  command invalid.
\<close>

theorem invalid_command_iff:
  "(\<exists>c. fst (migrateTo E command s) = Inl (InvalidCommand c)) \<longleftrightarrow>
   (command = JUndefined \<or> command = JStr [] \<or> m_list s = [])"
proof (cases "command = JUndefined \<or> command = JStr [] \<or> m_list s = []")
  case True
  then show ?thesis by (auto simp: migrateTo_def)
next
  case False
  have "fst (migrateTo E command s) \<noteq> Inl (InvalidCommand c)" for c
  proof (cases command)
    case (JNum n)
    with False show ?thesis
      using migrateTo_inner_error[of E "parseInt_num E n" False s]
      by (auto simp: migrateTo_number)
  next
    case (JStr str)
    have inner: "e \<noteq> InvalidCommand c" if "migrateTo_inner E target rerun s = (Inl e, s')"
      for target rerun e s'
      using migrateTo_inner_error[of E target rerun s e c] that by simp
    from JStr False show ?thesis
      by (auto simp: migrateTo_def Let_def split: prod.splits sum.splits if_splits
          dest: inner)
  qed (use False in \<open>auto simp: migrateTo_def\<close>)
  with False show ?thesis by auto
qed

lemma list_never_empty:
  "m_list (initial w t) \<noteq> []" "m_list (reset s) \<noteq> []"
  "m_list s \<noteq> [] \<Longrightarrow> m_list (snd (add m s)) \<noteq> []"
proof -
  show "m_list (initial w t) \<noteq> []" by (simp add: initial_def)
  show "m_list (reset s) \<noteq> []" by (simp add: reset_def)
  have "set (sort_by compare_version (m_list s @ [x])) \<noteq> {}" for x
    by (simp add: set_sort_by)
  then have "sort_by compare_version (m_list s @ [x]) \<noteq> []" for x
    by (metis set_empty)
  then show "m_list s \<noteq> [] \<Longrightarrow> m_list (snd (add m s)) \<noteq> []"
    by (auto simp: add_def split: jsval.splits if_splits)
qed

text \<open>
  Claim C4 as stated fails: in the initial state the list holds the sentinel only, and
  \<open>migrateTo('latest')\<close> returns without throwing.
\<close>

theorem sentinel_only_counterexample:
  "m_list (initial () 0) = [DefaultMigration] \<and>
   fst (migrateTo idle_env (JStr ''latest'') (initial () 0)) = Inr ()"
proof -
  have l: "m_list (initial () 0) = [DefaultMigration]" by (simp add: initial_def)
  have c: "collection (initial () 0) = None" by (simp add: initial_def)
  have "migrateTo idle_env (JStr ''latest'') (initial () 0) =
        migrateTo_inner idle_env (Fin 0) False (initial () 0)"
    by (simp add: migrateTo_latest l DefaultMigration_def)
  then show ?thesis
    by (simp add: l migrateTo_inner_def getControl_None[OF c])
qed

section \<open>An invocation run piece by piece\<close>

text \<open>The pieces, run one after the other by one invocation alone, do what \<open>_migrateTo\<close>
  does as a whole.\<close>

lemma exec_add:
  "exec E target rerun (m + n) c = exec E target rerun n (exec E target rerun m c)"
proof (induction m arbitrary: c)
  case 0
  then show ?case by simp
next
  case (Suc m)
  obtain p s where c: "c = (p, s)" by (cases c)
  show ?case using Suc.IH[of "step E target rerun p s"] by (simp add: c)
qed

lemma exec_Suc_right:
  "exec E target rerun (Suc n) c =
     (case exec E target rerun n c of (p, s) \<Rightarrow> step E target rerun p s)"
  using exec_add[of E target rerun n 1 c] by (cases "exec E target rerun n c") simp

lemma exec_1: "exec E target rerun (Suc 0) (p, s) = step E target rerun p s"
  by simp

text \<open>One step of \<open>migrate\<close>, in pieces.\<close>

lemma migrate_small:
  assumes "migrate E d idx cv s = (r, s')"
  shows "(\<exists>e. r = Inl e \<and>
            (\<exists>n. exec E target rerun n (enter_migrate d idx c cv s) =
                    (PUnlock (Inl e) cv, log LError MigrationFailed s'))) \<or>
         (r = Inr () \<and>
            exec E target rerun (Suc 0) (enter_migrate d idx c cv s) =
              (case c of
                 InRerun \<Rightarrow> (PUnlock (Inr ()) cv, log LInfo FinishedMigrating s')
               | InLoop i endIdx \<Rightarrow>
                   (PCheckpoint d i endIdx
                      (version (m_list s' ! (case d of Up \<Rightarrow> i + 1 | Down \<Rightarrow> i - 1))), s')))"
proof (cases "idx < length (m_list s)")
  case False
  with assms have "r = Inl TypeError" "s' = s" by (auto simp: migrate_def)
  moreover have "exec E target rerun 0 (enter_migrate d idx c cv s) =
      (PUnlock (Inl TypeError) cv, log LError MigrationFailed s)"
    using False by (simp add: enter_migrate_def)
  ultimately show ?thesis by blast
next
  case True
  show ?thesis
  proof (cases "is_function (field d (m_list s ! idx))")
    case False
    from migrate_no_function[OF True False, of E cv] assms
    have r: "r = Inl (DirectionUnsupported d (version (m_list s ! idx)))"
      "s' = unlock_inner cv s" by auto
    have "enter_migrate d idx c cv s =
        (PMissing (DirectionUnsupported d (version (m_list s ! idx))) cv, s)"
      using True False by (cases "field d (m_list s ! idx)") (auto simp: enter_migrate_def)
    then have "exec E target rerun (Suc 0) (enter_migrate d idx c cv s) =
        (PUnlock (Inl (DirectionUnsupported d (version (m_list s ! idx)))) cv,
         log LError MigrationFailed (unlock_inner cv s))"
      by (simp add: step_def)
    with r show ?thesis by blast
  next
    case fn: True
    then obtain f where f: "field d (m_list s ! idx) = JFun f"
      by (cases "field d (m_list s ! idx)") auto
    let ?m = "m_list s ! idx"
    let ?s2 = "(emit (EvCall d ?m [?m]) (log LInfo (Running d (version ?m) (maybeName ?m)) s))
                 \<lparr>world := snd (call E f [?m] (world s))\<rparr>"
    from migrate_function[OF True f, of E cv] assms
    have r: "r = (case fst (call E f [?m] (world s)) of None \<Rightarrow> Inr () | Some e \<Rightarrow> Inl e)"
      "s' = ?s2" by auto
    have enter: "enter_migrate d idx c cv s = (PCall d idx f c cv, s)"
      using True f by (simp add: enter_migrate_def)
    show ?thesis
    proof (cases "fst (call E f [?m] (world s))")
      case None
      then have "step E target rerun (PCall d idx f c cv) s =
          (case c of
             InRerun \<Rightarrow> (PUnlock (Inr ()) cv, log LInfo FinishedMigrating ?s2)
           | InLoop i endIdx \<Rightarrow>
               (PCheckpoint d i endIdx
                  (version (m_list ?s2 ! (case d of Up \<Rightarrow> i + 1 | Down \<Rightarrow> i - 1))), ?s2))"
        by (cases "call E f [?m] (world s)")
           (simp add: step_def Let_def split: ctx.splits del: call.simps)
      with None r enter show ?thesis by (simp split: ctx.splits)
    next
      case (Some e)
      then have "step E target rerun (PCall d idx f c cv) s =
          (PUnlock (Inl e) cv, log LError MigrationFailed ?s2)"
        by (cases "call E f [?m] (world s)") (simp add: step_def Let_def del: call.simps)
      then have "exec E target rerun (Suc 0) (enter_migrate d idx c cv s) =
          (PUnlock (Inl e) cv, log LError MigrationFailed ?s2)"
        by (simp add: enter)
      with Some r show ?thesis by auto
    qed
  qed
qed

text \<open>The loops, in pieces: from the test of the loop to the unlock of the cleanup.\<close>

lemma up_loop_small:
  assumes "up_loop E i endIdx cv s = (r, cv', s')"
  shows "\<exists>n. exec E target rerun n (loop_head Up i endIdx cv s) =
           (PUnlock r cv',
            case r of Inl e \<Rightarrow> log LError MigrationFailed s'
            | Inr u \<Rightarrow> log LInfo FinishedMigrating s')"
  using assms
proof (induction E i endIdx cv s rule: up_loop.induct)
  case (1 E i endIdx cv s)
  show ?case
  proof (cases "i < endIdx")
    case False
    with "1.prems" have "r = Inr ()" "cv' = cv" "s' = s"
      by (simp_all add: up_loop.simps)
    moreover have "exec E target rerun 0 (loop_head Up i endIdx cv s) =
        (PUnlock (Inr ()) cv, log LInfo FinishedMigrating s)"
      using False by (simp add: loop_head_def)
    ultimately show ?thesis by (intro exI[of _ 0]) simp
  next
    case True
    obtain r1 s1 where m: "migrate E Up (i + 1) cv s = (r1, s1)"
      by (cases "migrate E Up (i + 1) cv s")
    have head: "loop_head Up i endIdx cv s = enter_migrate Up (i + 1) (InLoop i endIdx) cv s"
      using True by (simp add: loop_head_def)
    from migrate_small[OF m, of target rerun "InLoop i endIdx"]
    show ?thesis
    proof (elim disjE exE conjE)
      fix e n
      assume e: "r1 = Inl e"
        and n: "exec E target rerun n (enter_migrate Up (i + 1) (InLoop i endIdx) cv s) =
                (PUnlock (Inl e) cv, log LError MigrationFailed s1)"
      from "1.prems" True m e have "r = Inl e" "cv' = cv" "s' = s1"
        by (simp_all add: up_loop.simps)
      with n head show ?thesis by (intro exI[of _ n]) simp
    next
      let ?cv = "version (m_list s1 ! (i + 1))"
      assume ok: "r1 = Inr ()"
        and one: "exec E target rerun (Suc 0) (enter_migrate Up (i + 1) (InLoop i endIdx) cv s) =
                (case InLoop i endIdx of
                   InRerun \<Rightarrow> (PUnlock (Inr ()) cv, log LInfo FinishedMigrating s1)
                 | InLoop i endIdx \<Rightarrow>
                     (PCheckpoint Up i endIdx
                        (version (m_list s1 ! (case Up of Up \<Rightarrow> i + 1 | Down \<Rightarrow> i - 1))), s1))"
      from "1.prems" True m ok
      have rest: "up_loop E (i + 1) endIdx ?cv (updateVersion ?cv s1) = (r, cv', s')"
        by (simp add: up_loop.simps[of E i] Let_def)
      from "1.IH"[OF True m[symmetric] ok refl rest]
      obtain n where n: "exec E target rerun n (loop_head Up (i + 1) endIdx ?cv (updateVersion ?cv s1)) =
           (PUnlock r cv',
            case r of Inl e \<Rightarrow> log LError MigrationFailed s'
            | Inr u \<Rightarrow> log LInfo FinishedMigrating s')"
        by blast
      have two: "exec E target rerun (Suc (Suc 0)) (loop_head Up i endIdx cv s) =
           loop_head Up (i + 1) endIdx ?cv (updateVersion ?cv s1)"
        using one head exec_add[of E target rerun "Suc 0" "Suc 0" "loop_head Up i endIdx cv s"]
        by (simp add: step_def)
      show ?thesis
        using exec_add[of E target rerun "Suc (Suc 0)" n "loop_head Up i endIdx cv s"] two n
        by (intro exI[of _ "Suc (Suc 0) + n"]) simp
    qed
  qed
qed

lemma down_loop_small:
  assumes "down_loop E i endIdx cv s = (r, cv', s')"
  shows "\<exists>n. exec E target rerun n (loop_head Down i endIdx cv s) =
           (PUnlock r cv',
            case r of Inl e \<Rightarrow> log LError MigrationFailed s'
            | Inr u \<Rightarrow> log LInfo FinishedMigrating s')"
  using assms
proof (induction E i endIdx cv s rule: down_loop.induct)
  case (1 E i endIdx cv s)
  show ?case
  proof (cases "i > endIdx")
    case False
    with "1.prems" have "r = Inr ()" "cv' = cv" "s' = s"
      by (simp_all add: down_loop.simps)
    moreover have "exec E target rerun 0 (loop_head Down i endIdx cv s) =
        (PUnlock (Inr ()) cv, log LInfo FinishedMigrating s)"
      using False by (simp add: loop_head_def)
    ultimately show ?thesis by (intro exI[of _ 0]) simp
  next
    case True
    obtain r1 s1 where m: "migrate E Down i cv s = (r1, s1)"
      by (cases "migrate E Down i cv s")
    have head: "loop_head Down i endIdx cv s = enter_migrate Down i (InLoop i endIdx) cv s"
      using True by (simp add: loop_head_def)
    from migrate_small[OF m, of target rerun "InLoop i endIdx"]
    show ?thesis
    proof (elim disjE exE conjE)
      fix e n
      assume e: "r1 = Inl e"
        and n: "exec E target rerun n (enter_migrate Down i (InLoop i endIdx) cv s) =
                (PUnlock (Inl e) cv, log LError MigrationFailed s1)"
      from "1.prems" True m e have "r = Inl e" "cv' = cv" "s' = s1"
        by (simp_all add: down_loop.simps)
      with n head show ?thesis by (intro exI[of _ n]) simp
    next
      let ?cv = "version (m_list s1 ! (i - 1))"
      assume ok: "r1 = Inr ()"
        and one: "exec E target rerun (Suc 0) (enter_migrate Down i (InLoop i endIdx) cv s) =
                (case InLoop i endIdx of
                   InRerun \<Rightarrow> (PUnlock (Inr ()) cv, log LInfo FinishedMigrating s1)
                 | InLoop i endIdx \<Rightarrow>
                     (PCheckpoint Down i endIdx
                        (version (m_list s1 ! (case Down of Up \<Rightarrow> i + 1 | Down \<Rightarrow> i - 1))), s1))"
      from "1.prems" True m ok
      have rest: "down_loop E (i - 1) endIdx ?cv (updateVersion ?cv s1) = (r, cv', s')"
        by (simp add: down_loop.simps[of E i] Let_def)
      from "1.IH"[OF True m[symmetric] ok refl rest]
      obtain n where n: "exec E target rerun n (loop_head Down (i - 1) endIdx ?cv (updateVersion ?cv s1)) =
           (PUnlock r cv',
            case r of Inl e \<Rightarrow> log LError MigrationFailed s'
            | Inr u \<Rightarrow> log LInfo FinishedMigrating s')"
        by blast
      have two: "exec E target rerun (Suc (Suc 0)) (loop_head Down i endIdx cv s) =
           loop_head Down (i - 1) endIdx ?cv (updateVersion ?cv s1)"
        using one head exec_add[of E target rerun "Suc 0" "Suc 0" "loop_head Down i endIdx cv s"]
        by (simp add: step_def)
      show ?thesis
        using exec_add[of E target rerun "Suc (Suc 0)" n "loop_head Down i endIdx cv s"] two n
        by (intro exI[of _ "Suc (Suc 0) + n"]) simp
    qed
  qed
qed

lemma start_small:
  assumes "getControl s = (cv, s1)"
  shows "\<exists>n. exec E target rerun n (PStart, s) = after_control target rerun cv s1"
proof (cases "collection s")
  case None
  with assms have "cv = Fin 0" "s1 = setControl (Fin 0) False (emit EvFind s)"
    by (auto simp: getControl_None)
  with None have "exec E target rerun (Suc (Suc 0)) (PStart, s) = after_control target rerun cv s1"
    by (simp add: step_def)
  then show ?thesis by blast
next
  case (Some c)
  with assms have "cv = c_version c" "s1 = emit EvFind s"
    by (auto simp: getControl_Some)
  with Some have "exec E target rerun (Suc 0) (PStart, s) = after_control target rerun cv s1"
    by (simp add: step_def)
  then show ?thesis by blast
qed

lemma exec_then_step:
  assumes "exec E target rerun n c = (p, s)" and "step E target rerun p s = c'"
  shows "exec E target rerun (Suc n) c = c'"
  using assms by (simp add: exec_Suc_right)

text \<open>Run alone, the pieces of an invocation end in the outcome and the state of
  \<open>_migrateTo\<close>.\<close>

lemma pieces_make_migrateTo_inner:
  "\<exists>n. exec E target rerun n (PStart, s) =
        (PDone (fst (migrateTo_inner E target rerun s)), snd (migrateTo_inner E target rerun s))"
proof (cases rule: migrateTo_inner_cases[of s rerun target E])
  case (skip cv s1)
  from start_small[OF skip(1), of E target rerun] skip show ?thesis
    by (auto simp: after_control_def)
next
  case (denied cv s1 s2)
  from start_small[OF denied(1), of E target rerun] denied(2)
  obtain n where "exec E target rerun n (PStart, s) = (PLock cv, s1)"
    by (auto simp: after_control_def)
  moreover have "step E target rerun (PLock cv) s1 = (PDone (Inr ()), log LInfo ControlIsLocked s2)"
    using denied(3) by (simp add: step_def)
  ultimately have "exec E target rerun (Suc n) (PStart, s) =
      (PDone (Inr ()), log LInfo ControlIsLocked s2)"
    by (rule exec_then_step)
  with denied(4) show ?thesis by (intro exI[of _ "Suc n"]) simp
next
  case (rerun_missing cv s1 s2 e)
  from start_small[OF rerun_missing(1), of E target rerun] rerun_missing(3)
  obtain n where "exec E target rerun n (PStart, s) = (PLock cv, s1)"
    by (auto simp: after_control_def)
  moreover have "step E target rerun (PLock cv) s1 =
      (PUnlock (Inl e) cv, log LError MigrationFailed (log LInfo (Rerunning target) s2))"
    using rerun_missing(2,3,4) by (simp add: step_def findIndexByVersion_def)
  ultimately have "exec E target rerun (Suc n) (PStart, s) =
      (PUnlock (Inl e) cv, log LError MigrationFailed (log LInfo (Rerunning target) s2))"
    by (rule exec_then_step)
  then have "exec E target rerun (Suc (Suc n)) (PStart, s) =
      (PDone (Inl e), unlock_inner cv (log LError MigrationFailed (log LInfo (Rerunning target) s2)))"
    by (rule exec_then_step) (simp add: step_def)
  with rerun_missing(5) show ?thesis by (intro exI[of _ "Suc (Suc n)"]) simp
next
  case (rerun cv s1 s2 idx r s')
  let ?s3 = "log LInfo (Rerunning target) s2"
  from start_small[OF rerun(1), of E target rerun] rerun(3)
  obtain n where n: "exec E target rerun n (PStart, s) = (PLock cv, s1)"
    by (auto simp: after_control_def)
  have "step E target rerun (PLock cv) s1 = enter_migrate Up idx InRerun cv ?s3"
    using rerun(2,3,4) by (simp add: step_def findIndexByVersion_def)
  with n have n1: "exec E target rerun (Suc n) (PStart, s) = enter_migrate Up idx InRerun cv ?s3"
    by (rule exec_then_step)
  from migrate_small[OF rerun(5), of target rerun InRerun]
  obtain k where "exec E target rerun k (enter_migrate Up idx InRerun cv ?s3) =
      (PUnlock r cv, case r of Inl e \<Rightarrow> log LError MigrationFailed s'
                     | Inr u \<Rightarrow> log LInfo FinishedMigrating s')"
    by (elim disjE exE conjE) (auto intro: that)
  with n1 have "exec E target rerun (Suc n + k) (PStart, s) =
      (PUnlock r cv, case r of Inl e \<Rightarrow> log LError MigrationFailed s'
                     | Inr u \<Rightarrow> log LInfo FinishedMigrating s')"
    by (simp only: exec_add)
  then have "exec E target rerun (Suc (Suc n + k)) (PStart, s) =
      (PDone r, unlock_inner cv (case r of Inl e \<Rightarrow> log LError MigrationFailed s'
                     | Inr u \<Rightarrow> log LInfo FinishedMigrating s'))"
    by (rule exec_then_step) (simp add: step_def)
  with rerun(6) show ?thesis by (intro exI[of _ "Suc (Suc n + k)"]) simp
next
  case (no_start cv s1 s2 e)
  from start_small[OF no_start(1), of E target rerun] no_start(3,4)
  obtain n where "exec E target rerun n (PStart, s) = (PLock cv, s1)"
    by (auto simp: after_control_def)
  moreover have "step E target rerun (PLock cv) s1 = (PDone (Inl e), s2)"
    using no_start by (simp add: step_def)
  ultimately have "exec E target rerun (Suc n) (PStart, s) = (PDone (Inl e), s2)"
    by (rule exec_then_step)
  with no_start(6) show ?thesis by (intro exI[of _ "Suc n"]) simp
next
  case (no_end cv s1 s2 startIdx e)
  from start_small[OF no_end(1), of E target rerun] no_end(3,4)
  obtain n where "exec E target rerun n (PStart, s) = (PLock cv, s1)"
    by (auto simp: after_control_def)
  moreover have "step E target rerun (PLock cv) s1 = (PDone (Inl e), s2)"
    using no_end by (simp add: step_def)
  ultimately have "exec E target rerun (Suc n) (PStart, s) = (PDone (Inl e), s2)"
    by (rule exec_then_step)
  with no_end(7) show ?thesis by (intro exI[of _ "Suc n"]) simp
next
  case (sequential cv s1 s2 startIdx endIdx r cv' s4)
  let ?s3 = "log LInfo (MigratingFromTo (version (m_list s2 ! startIdx))
                          (version (m_list s2 ! endIdx))) s2"
  let ?d = "if num_lt cv target then Up else Down"
  from start_small[OF sequential(1), of E target rerun] sequential(3,4)
  obtain n where n: "exec E target rerun n (PStart, s) = (PLock cv, s1)"
    by (auto simp: after_control_def)
  have "step E target rerun (PLock cv) s1 = loop_head ?d startIdx endIdx cv ?s3"
    using sequential(2,3,5,6) by (simp add: step_def)
  with n have n1: "exec E target rerun (Suc n) (PStart, s) = loop_head ?d startIdx endIdx cv ?s3"
    by (rule exec_then_step)
  have "\<exists>k. exec E target rerun k (loop_head ?d startIdx endIdx cv ?s3) =
      (PUnlock r cv', case r of Inl e \<Rightarrow> log LError MigrationFailed s4
                      | Inr u \<Rightarrow> log LInfo FinishedMigrating s4)"
    using sequential(7) up_loop_small[of E startIdx endIdx cv ?s3 r cv' s4 target rerun]
      down_loop_small[of E startIdx endIdx cv ?s3 r cv' s4 target rerun]
    by (auto split: if_splits)
  then obtain k where "exec E target rerun k (loop_head ?d startIdx endIdx cv ?s3) =
      (PUnlock r cv', case r of Inl e \<Rightarrow> log LError MigrationFailed s4
                      | Inr u \<Rightarrow> log LInfo FinishedMigrating s4)"
    by blast
  with n1 have "exec E target rerun (Suc n + k) (PStart, s) =
      (PUnlock r cv', case r of Inl e \<Rightarrow> log LError MigrationFailed s4
                      | Inr u \<Rightarrow> log LInfo FinishedMigrating s4)"
    by (simp only: exec_add)
  then have "exec E target rerun (Suc (Suc n + k)) (PStart, s) =
      (PDone r, unlock_inner cv' (case r of Inl e \<Rightarrow> log LError MigrationFailed s4
                      | Inr u \<Rightarrow> log LInfo FinishedMigrating s4))"
    by (rule exec_then_step) (simp add: step_def)
  with sequential(8) show ?thesis by (intro exI[of _ "Suc (Suc n + k)"]) simp
qed

section \<open>Two invocations and the lock\<close>

























text \<open>The list that successful \<open>add\<close> calls build from the sentinel is such a list.\<close>

lemma registry_ok_add_all:
  assumes "m_list s = [DefaultMigration]" and "add_all ms s = (Inr (), s')"
    and "\<forall>m\<in>set ms. version m \<noteq> JNum NaN"
  shows "registry_ok (m_list s')"
proof -
  from add_all_invariant[OF assms(2,3) assms(1)]
  obtain ys where ys: "m_list s' = DefaultMigration # ys"
    "\<forall>x\<in>set ys. num_lt (Fin 0) (version x) \<and> frozen x \<and> is_function (up x)"
    "sorted_wrt version_le ys"
    by (auto simp: DefaultMigration_def)
  have "version_le DefaultMigration y" if "y \<in> set ys" for y
    using ys(2) that by (cases "version y") (auto simp: version_le_def DefaultMigration_def)
  with ys(3) have "sorted_wrt version_le (DefaultMigration # ys)" by simp
  moreover have "list_all (\<lambda>m. is_function (up m)) (DefaultMigration # ys)"
    using ys(2) by (simp add: list_all_iff DefaultMigration_def)
  ultimately show ?thesis using ys(1) by (simp add: registry_ok_def)
qed




end
